theory Spec2Isabelle
  imports Main "HOL-Library.Word"
begin

section \<open>Log model and snapshot (agent/log.py)\<close>

text \<open>
  The hashing function \<open>Snapshot.hash_fun\<close> is
  \<^verbatim>\<open>str(hashlib.sha256(data.encode()).hexdigest())\<close>. SHA-256 comes from the Python
  standard library, not from this repository, so every definition that hashes takes the
  function as its first argument \<open>H\<close>. Strings are byte lists (the UTF-8 encoding of the
  Python string), so concatenation of strings is concatenation of their encodings.
\<close>

record Log =
  log_name :: string
  log_id :: "string option"

record Record =
  rec_log :: Log
  data :: string
  timestamp :: int

record Snapshot =
  snap_log :: Log
  cum_hash :: string
  first_line :: int
  line_count :: int

text \<open>The dictionary built by \<open>Snapshot.to_dict\<close>.\<close>

record SnapshotView =
  firstLine :: int
  lastLine :: int
  logId :: "string option"
  fingerprint :: string

definition Snapshot_init :: "(string \<Rightarrow> string) \<Rightarrow> Log \<Rightarrow> int \<Rightarrow> Snapshot" where
  "Snapshot_init H l fl =
     \<lparr>snap_log = l, cum_hash = H '''', first_line = fl, line_count = 0\<rparr>"

definition add_record :: "(string \<Rightarrow> string) \<Rightarrow> Snapshot \<Rightarrow> Record \<Rightarrow> Snapshot" where
  "add_record H s r =
     s\<lparr>cum_hash := H (cum_hash s @ data r), line_count := line_count s + 1\<rparr>"

definition get_next_line :: "Snapshot \<Rightarrow> int" where
  "get_next_line s = first_line s + line_count s"

definition reset :: "(string \<Rightarrow> string) \<Rightarrow> Snapshot \<Rightarrow> Snapshot" where
  "reset H s = s\<lparr>first_line := get_next_line s, line_count := 0, cum_hash := H ''''\<rparr>"

definition to_dict :: "Snapshot \<Rightarrow> SnapshotView" where
  "to_dict s =
     \<lparr>firstLine = first_line s, lastLine = get_next_line s - 1,
      logId = log_id (snap_log s), fingerprint = cum_hash s\<rparr>"

text \<open>\<open>upload_prep\<close> holds the snapshot's lock over both steps: it returns the view and the
  snapshot after the reset together.\<close>

definition upload_prep :: "(string \<Rightarrow> string) \<Rightarrow> Snapshot \<Rightarrow> SnapshotView \<times> Snapshot" where
  "upload_prep H s = (to_dict s, reset H s)"

text \<open>A sequential history of calls on one snapshot: \<open>add_record\<close> and \<open>upload_prep\<close>
  (\<open>reset\<close> is called by \<open>upload_prep\<close> only). The state carries the views returned so
  far, oldest first.\<close>

datatype snapshot_op = AddRecord Record | UploadPrep

fun run_op :: "(string \<Rightarrow> string) \<Rightarrow> Snapshot \<times> SnapshotView list \<Rightarrow> snapshot_op
    \<Rightarrow> Snapshot \<times> SnapshotView list" where
  "run_op H (s, vs) (AddRecord r) = (add_record H s r, vs)"
| "run_op H (s, vs) UploadPrep = (snd (upload_prep H s), vs @ [fst (upload_prep H s)])"

definition run_ops :: "(string \<Rightarrow> string) \<Rightarrow> Snapshot \<Rightarrow> snapshot_op list
    \<Rightarrow> Snapshot \<times> SnapshotView list" where
  "run_ops H s ops = foldl (run_op H) (s, []) ops"

text \<open>The records added since the last \<open>upload_prep\<close> of a history.\<close>

fun pending :: "snapshot_op list \<Rightarrow> Record list \<Rightarrow> Record list" where
  "pending [] acc = acc"
| "pending (AddRecord r # ops) acc = pending ops (acc @ [r])"
| "pending (UploadPrep # ops) acc = pending ops []"

text \<open>The number of \<open>add_record\<close> calls of a history.\<close>

fun adds :: "snapshot_op list \<Rightarrow> nat" where
  "adds [] = 0"
| "adds (AddRecord r # ops) = Suc (adds ops)"
| "adds (UploadPrep # ops) = adds ops"

text \<open>The fingerprint as the specification words it: the left fold of
  \<open>h \<mapsto> H (h \<parallel> r.data)\<close> over the records, from \<open>H ""\<close>.\<close>

definition spec_fold :: "(string \<Rightarrow> string) \<Rightarrow> Record list \<Rightarrow> string" where
  "spec_fold H rs = foldl (\<lambda>h r. H (h @ data r)) (H '''') rs"

text \<open>The line numbers a view covers, and the lines covered by the posted views of a
  history together with the snapshot still in progress.\<close>

definition view_lines :: "SnapshotView \<Rightarrow> int list" where
  "view_lines v = [firstLine v..lastLine v]"

definition covered :: "Snapshot \<times> SnapshotView list \<Rightarrow> int list" where
  "covered sv =
     concat (map view_lines (filter (\<lambda>v. firstLine v \<le> lastLine v) (snd sv)))
       @ [first_line (fst sv)..get_next_line (fst sv) - 1]"

section \<open>Backend connector and collector (agent/backend_connector.py, agent/collector.py)\<close>

text \<open>
  \<open>post_snapshot\<close> calls \<open>upload_prep\<close> and posts the view when
  \<open>firstLine \<le> lastLine\<close>. The backend's answer is not part of the repository: the
  argument \<open>ok\<close> gives the \<open>success\<close> field of its reply to a posted view. On
  \<open>success = false\<close> the helper \<open>__handle_response\<close> ends the process with
  \<open>os._exit(1)\<close>, modelled as \<open>Inl ProcessExit\<close>. The first component is the view
  posted, if any.
\<close>

datatype fatal = ProcessExit

definition post_snapshot :: "(string \<Rightarrow> string) \<Rightarrow> (SnapshotView \<Rightarrow> bool) \<Rightarrow> Snapshot
    \<Rightarrow> SnapshotView option \<times> (fatal + Snapshot)" where
  "post_snapshot H ok s =
     (let d = fst (upload_prep H s); s' = snd (upload_prep H s) in
      if firstLine d \<le> lastLine d
      then (if ok d then (Some d, Inr s') else (Some d, Inl ProcessExit))
      else (None, Inr s'))"

text \<open>\<open>ListLogCollector.snapshots\<close> is a dictionary from log names to snapshots; it is an
  association list in insertion order, the order in which \<open>upload_records\<close> visits it.\<close>

type_synonym ListLogCollector = "(string \<times> Snapshot) list"

fun upload_records :: "(string \<Rightarrow> string) \<Rightarrow> (SnapshotView \<Rightarrow> bool) \<Rightarrow> ListLogCollector
    \<Rightarrow> SnapshotView list \<times> (fatal + ListLogCollector)" where
  "upload_records H ok [] = ([], Inr [])"
| "upload_records H ok ((n, s) # rest) =
     (case post_snapshot H ok s of
        (p, Inl e) \<Rightarrow> (case p of None \<Rightarrow> [] | Some d \<Rightarrow> [d], Inl e)
      | (p, Inr s') \<Rightarrow>
          (case upload_records H ok rest of
             (ps, Inl e) \<Rightarrow> ((case p of None \<Rightarrow> [] | Some d \<Rightarrow> [d]) @ ps, Inl e)
           | (ps, Inr rest') \<Rightarrow>
               ((case p of None \<Rightarrow> [] | Some d \<Rightarrow> [d]) @ ps, Inr ((n, s') # rest'))))"

definition get_log_position :: "ListLogCollector \<Rightarrow> Log \<Rightarrow> int" where
  "get_log_position c l =
     (case map_of c (log_name l) of None \<Rightarrow> 0 | Some snapshot \<Rightarrow> get_next_line snapshot)"

section \<open>Content requests (agent/proxyconnection.py)\<close>

text \<open>Python exceptions are values: a function that can raise returns \<open>exn + 'a\<close>.\<close>

datatype exn =
    ValueError string | ConnectionError | StopIteration | OverflowError | IndexError
  | DecodeError

datatype Status = PENDING | RECEIVING | CLOSED | NOT_FOUND | DROPPED

record ContentRequest =
  request_id :: int
  req_log :: Log
  begin_record :: int
  next_record_ind :: int
  end_record :: int
  status :: Status
  content :: "string list"

definition ContentRequest_init :: "int \<Rightarrow> Log \<Rightarrow> int \<Rightarrow> int \<Rightarrow> ContentRequest" where
  "ContentRequest_init rid l b e =
     \<lparr>request_id = rid, req_log = l, begin_record = b, next_record_ind = b,
      end_record = e, status = PENDING, content = []\<rparr>"

definition got_all_requested_records :: "ContentRequest \<Rightarrow> bool" where
  "got_all_requested_records r = (next_record_ind r = end_record r + 1)"

definition is_finished :: "ContentRequest \<Rightarrow> bool" where
  "is_finished r = (got_all_requested_records r \<and> content r = [])"

text \<open>\<open>pop_record\<close> returns \<open>None\<close> on an empty queue, else the oldest record.\<close>

definition pop_record :: "ContentRequest \<Rightarrow> string option \<times> ContentRequest" where
  "pop_record r =
     (case content r of [] \<Rightarrow> (None, r) | x # xs \<Rightarrow> (Some x, r\<lparr>content := xs\<rparr>))"

definition cr_add_record :: "ContentRequest \<Rightarrow> string \<Rightarrow> ContentRequest" where
  "cr_add_record r x = r\<lparr>content := content r @ [x], next_record_ind := next_record_ind r + 1\<rparr>"

definition cr_set_status :: "ContentRequest \<Rightarrow> Status \<Rightarrow> ContentRequest" where
  "cr_set_status r s = r\<lparr>status := s\<rparr>"

text \<open>
  A \<open>ContentRequest\<close> object is shared: the handler keeps it in its dictionary until the
  request is closed, while the \<open>AgentContentRequest\<close> and the validator keep their
  references. Objects therefore live in a store of addresses, and the dictionary and the
  other holders keep addresses.
\<close>

type_synonym addr = nat

record Store =
  objs :: "addr \<Rightarrow> ContentRequest"
  next_addr :: addr

record ContentRequestHandler =
  requests :: "int \<rightharpoonup> addr"
  next_request_id :: int

definition ContentRequestHandler_init :: ContentRequestHandler where
  "ContentRequestHandler_init = \<lparr>requests = Map.empty, next_request_id = 0\<rparr>"

definition create_request :: "Store \<Rightarrow> ContentRequestHandler \<Rightarrow> Log \<Rightarrow> int \<Rightarrow> int
    \<Rightarrow> addr \<times> Store \<times> ContentRequestHandler" where
  "create_request st h l b e =
     (let rid = next_request_id h; a = next_addr st in
      (a,
       st\<lparr>objs := (objs st)(a := ContentRequest_init rid l b e), next_addr := Suc a\<rparr>,
       h\<lparr>requests := (requests h)(rid \<mapsto> a), next_request_id := rid + 1\<rparr>))"

definition add_records :: "Store \<Rightarrow> ContentRequestHandler \<Rightarrow> int \<Rightarrow> int \<Rightarrow> string list
    \<Rightarrow> exn + Store" where
  "add_records st h rid b records =
     (case requests h rid of
        None \<Rightarrow> Inr st
      | Some a \<Rightarrow>
          if got_all_requested_records (objs st a)
          then Inl (ValueError ''got next records for a request, although all requested records have already been sent'')
          else if next_record_ind (objs st a) \<noteq> b
          then Inl (ValueError ''invalid begin_record'')
          else Inr (st\<lparr>objs := (objs st)(a := foldl cr_add_record (objs st a) records)\<rparr>))"

definition set_status :: "Store \<Rightarrow> ContentRequestHandler \<Rightarrow> int \<Rightarrow> Status
    \<Rightarrow> Store \<times> ContentRequestHandler" where
  "set_status st h rid s =
     (case requests h rid of
        None \<Rightarrow> (st, h)
      | Some a \<Rightarrow>
          (st\<lparr>objs := (objs st)(a := cr_set_status (objs st a) s)\<rparr>,
           if s = NOT_FOUND \<or> s = CLOSED \<or> s = DROPPED
           then h\<lparr>requests := (requests h)(rid := None)\<rparr> else h))"

text \<open>\<open>ProxyConnection.drop_content_request\<close>, on the connection's handler: the request is
  given by reference.\<close>

definition drop_content_request :: "Store \<Rightarrow> ContentRequestHandler \<Rightarrow> addr
    \<Rightarrow> Store \<times> ContentRequestHandler" where
  "drop_content_request st h a = set_status st h (request_id (objs st a)) DROPPED"

text \<open>
  What reaches one handler: \<open>request_content\<close> creates a request, the deserializer calls
  \<open>add_records\<close> for a \<open>LogContentData\<close> message and \<open>set_status\<close> for a
  \<open>LogContentStatus\<close> message, and the agent drops a request by reference.
\<close>

datatype handler_event =
    Create Log int int
  | Records int int "string list"
  | SetStatus int Status
  | Drop addr

fun handler_step :: "Store \<times> ContentRequestHandler \<Rightarrow> handler_event
    \<Rightarrow> exn + Store \<times> ContentRequestHandler" where
  "handler_step (st, h) (Create l b e) = Inr (snd (create_request st h l b e))"
| "handler_step (st, h) (Records rid b records) =
     (case add_records st h rid b records of Inl x \<Rightarrow> Inl x | Inr st' \<Rightarrow> Inr (st', h))"
| "handler_step (st, h) (SetStatus rid s) = Inr (set_status st h rid s)"
| "handler_step (st, h) (Drop a) = Inr (drop_content_request st h a)"

fun handler_run :: "Store \<times> ContentRequestHandler \<Rightarrow> handler_event list
    \<Rightarrow> exn + Store \<times> ContentRequestHandler" where
  "handler_run sh [] = Inr sh"
| "handler_run sh (ev # evs) =
     (case handler_step sh ev of Inl x \<Rightarrow> Inl x | Inr sh' \<Rightarrow> handler_run sh' evs)"

text \<open>The wire events that carry one request id: a batch of records or a status.\<close>

datatype wire_event = WireRecords int "string list" | WireStatus Status

fun on_request :: "int \<Rightarrow> wire_event \<Rightarrow> handler_event" where
  "on_request rid (WireRecords b records) = Records rid b records"
| "on_request rid (WireStatus s) = SetStatus rid s"

definition is_terminal :: "Status \<Rightarrow> bool" where
  "is_terminal s = (s = CLOSED \<or> s = NOT_FOUND \<or> s = DROPPED)"

text \<open>The store before any request object is allocated.\<close>

definition Store_init :: Store where
  "Store_init =
     \<lparr>objs = (\<lambda>a. ContentRequest_init 0 \<lparr>log_name = [], log_id = None\<rparr> 0 0), next_addr = 0\<rparr>"

text \<open>
  What holds of a handler and the store of its request objects after any sequence of
  events: the dictionary maps an id to an allocated, open request of that id; ids are
  below the counter; a request that is not in the dictionary under its id is terminal;
  no two requests share an id.
\<close>

definition handler_inv :: "Store \<times> ContentRequestHandler \<Rightarrow> bool" where
  "handler_inv sh =
     ((\<forall>rid a. requests (snd sh) rid = Some a \<longrightarrow>
          a < next_addr (fst sh) \<and> request_id (objs (fst sh) a) = rid
          \<and> \<not> is_terminal (status (objs (fst sh) a)))
      \<and> (\<forall>a. a < next_addr (fst sh) \<longrightarrow>
            request_id (objs (fst sh) a) < next_request_id (snd sh))
      \<and> (\<forall>a. a < next_addr (fst sh) \<longrightarrow>
            requests (snd sh) (request_id (objs (fst sh) a)) = Some a
            \<or> is_terminal (status (objs (fst sh) a)))
      \<and> (\<forall>a a'. a < next_addr (fst sh) \<and> a' < next_addr (fst sh)
            \<and> request_id (objs (fst sh) a) = request_id (objs (fst sh) a') \<longrightarrow> a = a'))"

section \<open>Network messages (networking.py)\<close>

text \<open>\<open>LogContentStatusNetworkMessage.Status\<close>, with values 0, 1 and -1.\<close>

datatype LogContentStatus = FOUND_AND_BEGIN_SEND | END_SEND | LOG_NOT_FOUND

text \<open>The six message classes and their fields.\<close>

datatype NetworkMessage =
    AddRecordNetworkMessage Record
  | GetLogPositionNetworkMessage Log
  | LogPositionResponseNetworkMessage Log int
  | GetLogContentNetworkMessage Log int int int
  | LogContentStatusNetworkMessage int LogContentStatus
  | LogContentDataNetworkMessage int int int "string list"

text \<open>The constructor of \<open>LogContentDataNetworkMessage\<close> checks its range; the other
  constructors check nothing.\<close>

definition LogContentDataNetworkMessage_init :: "int \<Rightarrow> int \<Rightarrow> int \<Rightarrow> string list
    \<Rightarrow> exn + NetworkMessage" where
  "LogContentDataNetworkMessage_init rid b e contents =
     (if b > e then Inl (ValueError ''begin_record cannot be greater than end_record'')
      else Inr (LogContentDataNetworkMessage rid b e contents))"

section \<open>Content server of the proxy (proxy/filesystem/contentmanager.py)\<close>

text \<open>
  A file opened for reading is the list of its remaining lines, each with its line
  terminator, as iteration over a Python file object yields them. \<open>LogStream.__init__\<close>
  calls \<open>next\<close> on the file \<open>begin_record\<close> times (\<open>range\<close> of a negative number is
  empty); \<open>next\<close> on an exhausted file raises \<open>StopIteration\<close>.
\<close>

fun skip_lines :: "nat \<Rightarrow> string list \<Rightarrow> exn + string list" where
  "skip_lines 0 ls = Inr ls"
| "skip_lines (Suc n) [] = Inl StopIteration"
| "skip_lines (Suc n) (l # ls) = skip_lines n ls"

definition LogStream_init :: "string list \<Rightarrow> int \<Rightarrow> exn + string list" where
  "LogStream_init file b = skip_lines (nat b) file"

text \<open>\<open>read_records\<close> is \<open>list(itertools.islice(file, 0, max_count))\<close>: the lines read and
  the file after them.\<close>

definition read_records :: "string list \<Rightarrow> int \<Rightarrow> string list \<times> string list" where
  "read_records stream max_count = (take (nat max_count) stream, drop (nat max_count) stream)"

text \<open>
  \<open>str.rstrip()\<close> removes the trailing whitespace characters of a string, which are the
  characters \<open>str.isspace\<close> accepts: the code points 9 to 13, 28 to 32, U+0085, U+00A0,
  U+1680, U+2000 to U+200A, U+2028, U+2029, U+202F, U+205F and U+3000. A string is held
  as its UTF-8 bytes, so a whitespace character is one byte (9 to 13, 28 to 32), two bytes
  (C2 85, C2 A0) or three bytes (E1 9A 80; E2 80 80 to E2 80 8A; E2 80 A8; E2 80 A9;
  E2 80 AF; E2 81 9F; E3 80 80). \<open>strip_rev\<close> works on the reversed string, where the
  last byte comes first.
\<close>

definition space1 :: "char \<Rightarrow> bool" where
  "space1 c = (of_char c \<in> {9, 10, 11, 12, 13, 28, 29, 30, 31, 32 :: nat})"

definition space2 :: "char \<Rightarrow> char \<Rightarrow> bool" where
  "space2 c1 c2 = (of_char c1 = (194 :: nat) \<and> of_char c2 \<in> {133, 160 :: nat})"

definition space3 :: "char \<Rightarrow> char \<Rightarrow> char \<Rightarrow> bool" where
  "space3 c1 c2 c3 =
     ((of_char c1 = (225 :: nat) \<and> of_char c2 = (154 :: nat) \<and> of_char c3 = (128 :: nat))
      \<or> (of_char c1 = (226 :: nat) \<and> of_char c2 = (128 :: nat)
          \<and> ((128 :: nat) \<le> of_char c3 \<and> of_char c3 \<le> (138 :: nat)
              \<or> of_char c3 \<in> {168, 169, 175 :: nat}))
      \<or> (of_char c1 = (226 :: nat) \<and> of_char c2 = (129 :: nat) \<and> of_char c3 = (159 :: nat))
      \<or> (of_char c1 = (227 :: nat) \<and> of_char c2 = (128 :: nat) \<and> of_char c3 = (128 :: nat)))"

fun strip_rev :: "string \<Rightarrow> string" where
  "strip_rev [] = []"
| "strip_rev [c] = (if space1 c then [] else [c])"
| "strip_rev [c2, c1] =
     (if space1 c2 then strip_rev [c1]
      else if space2 c1 c2 then []
      else [c2, c1])"
| "strip_rev (c3 # c2 # c1 # s) =
     (if space1 c3 then strip_rev (c2 # c1 # s)
      else if space2 c2 c3 then strip_rev (c1 # s)
      else if space3 c1 c2 c3 then strip_rev s
      else c3 # c2 # c1 # s)"

definition rstrip :: "string \<Rightarrow> string" where
  "rstrip s = rev (strip_rev (rev s))"

definition BATCH_SIZE :: int where
  "BATCH_SIZE = 20"

text \<open>The \<open>while record <= end_record\<close> loop: the messages passed to \<open>send\<close>, and the
  exception that ended the loop, if any.\<close>

function send_loop :: "int \<Rightarrow> string list \<Rightarrow> int \<Rightarrow> int \<Rightarrow> NetworkMessage list \<times> exn option" where
  "send_loop rid stream record e =
     (if record \<le> e then
        (let to_send = min (e - record + 1) BATCH_SIZE;
             records = fst (read_records stream to_send);
             stream' = snd (read_records stream to_send);
             rec_count = int (length records)
         in if rec_count = 0 then ([], None)
            else (case LogContentDataNetworkMessage_init rid record (record + rec_count - 1)
                         (map rstrip records) of
                    Inl x \<Rightarrow> ([], Some x)
                  | Inr m \<Rightarrow>
                      (m # fst (send_loop rid stream' (record + rec_count) e),
                       snd (send_loop rid stream' (record + rec_count) e))))
      else ([], None))"
  by pat_completeness auto
termination
  by (relation "measure (\<lambda>(rid, stream, record, e). nat (e - record + 1))")
    (auto simp: Suc_le_eq)

text \<open>\<open>handle_log_content_request\<close>: \<open>contains_watch\<close> is the answer of the watch manager
  for the log, \<open>file\<close> the lines of the log file when it is opened.\<close>

definition handle_log_content_request :: "bool \<Rightarrow> string list \<Rightarrow> int \<Rightarrow> int \<Rightarrow> int
    \<Rightarrow> NetworkMessage list \<times> exn option" where
  "handle_log_content_request contains_watch file rid b e =
     (if \<not> contains_watch then ([LogContentStatusNetworkMessage rid LOG_NOT_FOUND], None)
      else
        (case LogStream_init file b of
           Inl x \<Rightarrow> ([LogContentStatusNetworkMessage rid FOUND_AND_BEGIN_SEND], Some x)
         | Inr stream \<Rightarrow>
             (case send_loop rid stream b e of
                (msgs, Some x) \<Rightarrow>
                  (LogContentStatusNetworkMessage rid FOUND_AND_BEGIN_SEND # msgs, Some x)
              | (msgs, None) \<Rightarrow>
                  (LogContentStatusNetworkMessage rid FOUND_AND_BEGIN_SEND # msgs
                     @ [LogContentStatusNetworkMessage rid END_SEND], None))))"

text \<open>A well-formed stream of batches for request \<open>rid\<close> starting at record \<open>start\<close>:
  every message is a \<open>LogContentData\<close> of the request, holds between 1 and \<open>BATCH_SIZE\<close>
  records, begins where the one before ended, and gives its last record as its end.\<close>

fun batches_from :: "int \<Rightarrow> int \<Rightarrow> NetworkMessage list \<Rightarrow> bool" where
  "batches_from rid start [] = True"
| "batches_from rid start (LogContentDataNetworkMessage r b e cs # ms) =
     (r = rid \<and> b = start \<and> 0 < length cs \<and> int (length cs) \<le> BATCH_SIZE
      \<and> e = b + int (length cs) - 1 \<and> batches_from rid (e + 1) ms)"
| "batches_from rid start (m # ms) = False"

section \<open>Proxy connections and the aggregate request (agent/proxyconnection.py, agent/lfb_agent.py)\<close>

text \<open>
  A \<open>ProxyConnection\<close> owns a \<open>ContentRequestHandler\<close> and a network connection; of the
  latter the state keeps \<open>outbox\<close>, the messages passed to \<open>NetworkConnection.send\<close>,
  oldest first (what the socket does with them is outside). Connections are objects too: the aggregate request refers to them, so
  the world maps connection references to connections, next to the store of requests.
\<close>

record ProxyConnection =
  content_requestor :: ContentRequestHandler
  outbox :: "NetworkMessage list"

type_synonym conn = nat

record World =
  store :: Store
  conns :: "conn \<Rightarrow> ProxyConnection"

definition ProxyConnection_init :: ProxyConnection where
  "ProxyConnection_init = \<lparr>content_requestor = ContentRequestHandler_init, outbox = []\<rparr>"

definition World_init :: World where
  "World_init = \<lparr>store = Store_init, conns = (\<lambda>c. ProxyConnection_init)\<rparr>"

definition request_content :: "World \<Rightarrow> conn \<Rightarrow> Log \<Rightarrow> int \<Rightarrow> int \<Rightarrow> addr \<times> World" where
  "request_content w c l b e =
     (let r = create_request (store w) (content_requestor (conns w c)) l b e;
          req = fst r; st' = fst (snd r); h' = snd (snd r);
          reqmsg = GetLogContentNetworkMessage l (request_id (objs st' req)) b e
      in (req,
          w\<lparr>store := st',
            conns := (conns w)(c := (conns w c)
              \<lparr>content_requestor := h', outbox := outbox (conns w c) @ [reqmsg]\<rparr>)\<rparr>))"

text \<open>\<open>ProxyConnection.drop_content_request\<close> on connection \<open>c\<close> of the world: it calls
  the handler's \<open>set_status\<close> and sends nothing.\<close>

definition conn_drop_content_request :: "World \<Rightarrow> conn \<Rightarrow> addr \<Rightarrow> World" where
  "conn_drop_content_request w c req =
     (let r = drop_content_request (store w) (content_requestor (conns w c)) req
      in w\<lparr>store := fst r,
           conns := (conns w)(c := (conns w c)\<lparr>content_requestor := snd r\<rparr>)\<rparr>)"

text \<open>What the deserializer does on connection \<open>c\<close> for the two content messages.\<close>

definition conn_set_status :: "World \<Rightarrow> conn \<Rightarrow> int \<Rightarrow> Status \<Rightarrow> World" where
  "conn_set_status w c rid s =
     (let r = set_status (store w) (content_requestor (conns w c)) rid s
      in w\<lparr>store := fst r,
           conns := (conns w)(c := (conns w c)\<lparr>content_requestor := snd r\<rparr>)\<rparr>)"

definition conn_add_records :: "World \<Rightarrow> conn \<Rightarrow> int \<Rightarrow> int \<Rightarrow> string list \<Rightarrow> exn + World" where
  "conn_add_records w c rid b records =
     (case add_records (store w) (content_requestor (conns w c)) rid b records of
        Inl x \<Rightarrow> Inl x
      | Inr st' \<Rightarrow> Inr (w\<lparr>store := st'\<rparr>))"

record AgentContentRequest =
  acr_requests :: "(conn \<times> addr) list"
  lead :: "addr option"

definition AgentContentRequest_init :: "(conn \<times> addr) list \<Rightarrow> AgentContentRequest" where
  "AgentContentRequest_init rs = \<lparr>acr_requests = rs, lead = None\<rparr>"

definition is_dead :: "AgentContentRequest \<Rightarrow> bool" where
  "is_dead acr = (lead acr = None \<and> length (acr_requests acr) = 0)"

text \<open>The loop of \<open>__select_lead\<close> over the children; \<open>req != lead\<close> compares object
  identities, here addresses.\<close>

fun drop_others :: "World \<Rightarrow> addr \<Rightarrow> (conn \<times> addr) list \<Rightarrow> World" where
  "drop_others w l [] = w"
| "drop_others w l ((con, req) # rest) =
     drop_others (if req \<noteq> l then conn_drop_content_request w con req else w) l rest"

definition select_lead :: "World \<Rightarrow> AgentContentRequest \<Rightarrow> addr \<Rightarrow> World \<times> AgentContentRequest" where
  "select_lead w acr l =
     (drop_others w l (acr_requests acr), acr\<lparr>lead := Some l, acr_requests := []\<rparr>)"

text \<open>\<open>del self.__requests[i]\<close>.\<close>

definition del_index :: "nat \<Rightarrow> 'a list \<Rightarrow> 'a list" where
  "del_index i xs = take i xs @ drop (Suc i) xs"

text \<open>
  The loop of \<open>__try_resolve_lead\<close>, \<open>for i in reversed(range(len(self.__requests)))\<close>:
  \<open>try_resolve_lead_from n\<close> runs the iterations for \<open>i = n - 1, \<dots>, 0\<close>. It starts at the
  length of the list and removes only the element at the current index, so every index
  read is in range.
\<close>

fun try_resolve_lead_from :: "nat \<Rightarrow> World \<Rightarrow> AgentContentRequest
    \<Rightarrow> World \<times> AgentContentRequest" where
  "try_resolve_lead_from 0 w acr = (w, acr)"
| "try_resolve_lead_from (Suc i) w acr =
     (let req = snd (acr_requests acr ! i); s = status (objs (store w) req) in
      if s = RECEIVING \<or> s = CLOSED then select_lead w acr req
      else if s = NOT_FOUND \<or> s = DROPPED
      then try_resolve_lead_from i w (acr\<lparr>acr_requests := del_index i (acr_requests acr)\<rparr>)
      else try_resolve_lead_from i w acr)"

definition try_resolve_lead :: "World \<Rightarrow> AgentContentRequest \<Rightarrow> World \<times> AgentContentRequest" where
  "try_resolve_lead w acr = try_resolve_lead_from (length (acr_requests acr)) w acr"

text \<open>\<open>get_lead\<close> returns the lead together with the world and the aggregate as it left
  them.\<close>

definition get_lead :: "World \<Rightarrow> AgentContentRequest
    \<Rightarrow> addr option \<times> World \<times> AgentContentRequest" where
  "get_lead w acr =
     (if lead acr = None
      then (lead (snd (try_resolve_lead w acr)), try_resolve_lead w acr)
      else (lead acr, w, acr))"

text \<open>\<open>LfbAgent.request_log_content\<close> over the registry of connections.\<close>

fun request_all :: "World \<Rightarrow> conn list \<Rightarrow> Log \<Rightarrow> int \<Rightarrow> int \<Rightarrow> (conn \<times> addr) list \<times> World" where
  "request_all w [] l b e = ([], w)"
| "request_all w (con # cons) l b e =
     (let r = request_content w con l b e; rest = request_all (snd r) cons l b e
      in ((con, fst r) # fst rest, snd rest))"

definition request_log_content :: "World \<Rightarrow> conn list \<Rightarrow> Log \<Rightarrow> int \<Rightarrow> int
    \<Rightarrow> AgentContentRequest \<times> World" where
  "request_log_content w cons l b e =
     (AgentContentRequest_init (fst (request_all w cons l b e)), snd (request_all w cons l b e))"

section \<open>The event loop (agent/lfb_agent.py)\<close>

text \<open>
  \<open>handle_clients\<close> is \<open>while True\<close> around a \<open>for\<close> loop over the registry, inside
  \<open>try \<dots> except Exception: print(e); os._exit(1)\<close>. What \<open>receive_messages\<close> does on a
  connection depends on the bytes its socket delivers; \<open>recv\<close> gives the exception the
  call raises during this pass, if any. A Python \<open>for\<close> over a list keeps an index, and
  \<open>remove\<close> shifts the later elements down, so the loop is a recursion on the index.
\<close>

datatype 'a loop_result = Continue 'a | Exit int

function for_connections :: "(conn \<Rightarrow> exn option) \<Rightarrow> nat \<Rightarrow> conn list \<Rightarrow> conn list loop_result" where
  "for_connections recv i cs =
     (if i < length cs then
        (case recv (cs ! i) of
           None \<Rightarrow> for_connections recv (Suc i) cs
         | Some ConnectionError \<Rightarrow> for_connections recv (Suc i) (remove1 (cs ! i) cs)
         | Some x \<Rightarrow> Exit 1)
      else Continue cs)"
  by pat_completeness auto
termination
  by (relation "measure (\<lambda>(recv, i, cs). length cs - i)") (auto simp: length_remove1)

text \<open>The first \<open>n\<close> iterations of \<open>while True\<close>; \<open>recvs k\<close> is what the sockets do during
  iteration \<open>k\<close>. The loop has no \<open>break\<close>: it ends only with the process.\<close>

fun handle_clients :: "(nat \<Rightarrow> conn \<Rightarrow> exn option) \<Rightarrow> nat \<Rightarrow> nat \<Rightarrow> conn list
    \<Rightarrow> conn list loop_result" where
  "handle_clients recvs k 0 cs = Continue cs"
| "handle_clients recvs k (Suc n) cs =
     (case for_connections (recvs k) 0 cs of
        Exit code \<Rightarrow> Exit code
      | Continue cs' \<Rightarrow> handle_clients recvs (Suc k) n cs')"

text \<open>
  Predicates on the children of an aggregate request, for stating what \<open>get_lead\<close> does:
  a child \<open>found\<close> the log when its status is \<open>RECEIVING\<close> or \<open>CLOSED\<close>, and it is \<open>gone\<close>
  when its status is \<open>NOT_FOUND\<close> or \<open>DROPPED\<close>.
\<close>

definition found :: "World \<Rightarrow> conn \<times> addr \<Rightarrow> bool" where
  "found w x = (status (objs (store w) (snd x)) = RECEIVING
                \<or> status (objs (store w) (snd x)) = CLOSED)"

definition gone :: "World \<Rightarrow> conn \<times> addr \<Rightarrow> bool" where
  "gone w x = (status (objs (store w) (snd x)) = NOT_FOUND
               \<or> status (objs (store w) (snd x)) = DROPPED)"

text \<open>
  The aggregate's children agree with the handlers of their connections: a child
  request is in the dictionary of its connection's handler, under its id, exactly as
  long as it is not terminal, and a request object is the child of one connection only.
\<close>

definition child_ok :: "World \<Rightarrow> conn \<times> addr \<Rightarrow> bool" where
  "child_ok w x =
     (requests (content_requestor (conns w (fst x))) (request_id (objs (store w) (snd x)))
        = (if is_terminal (status (objs (store w) (snd x))) then None else Some (snd x)))"

definition children_wf :: "World \<Rightarrow> (conn \<times> addr) set \<Rightarrow> bool" where
  "children_wf w S = (inj_on snd S \<and> (\<forall>x\<in>S. child_ok w x))"

text \<open>
  The worlds the agent reaches. An event is a fan-out of \<open>request_content\<close> over a list of
  connections, a \<open>LogContentStatus\<close> or \<open>LogContentData\<close> message handled on a connection,
  or the drop of a child created earlier on its own connection; the state carries the set
  of all children created so far.
\<close>

datatype world_event =
    FanOut "conn list" Log int int
  | OnStatus conn int Status
  | OnRecords conn int int "string list"
  | DropChild conn addr

fun world_step :: "World \<times> (conn \<times> addr) set \<Rightarrow> world_event \<Rightarrow> exn + World \<times> (conn \<times> addr) set" where
  "world_step (w, S) (FanOut cons l b e) =
     Inr (snd (request_all w cons l b e), S \<union> set (fst (request_all w cons l b e)))"
| "world_step (w, S) (OnStatus c rid s) = Inr (conn_set_status w c rid s, S)"
| "world_step (w, S) (OnRecords c rid b records) =
     (case conn_add_records w c rid b records of Inl x \<Rightarrow> Inl x | Inr w' \<Rightarrow> Inr (w', S))"
| "world_step (w, S) (DropChild c a) =
     Inr (if (c, a) \<in> S then conn_drop_content_request w c a else w, S)"

fun world_run :: "World \<times> (conn \<times> addr) set \<Rightarrow> world_event list \<Rightarrow> exn + World \<times> (conn \<times> addr) set" where
  "world_run ws [] = Inr ws"
| "world_run ws (ev # evs) =
     (case world_step ws ev of Inl x \<Rightarrow> Inl x | Inr ws' \<Rightarrow> world_run ws' evs)"

text \<open>
  What holds of every handler in such a world: a dictionary entry is an allocated, open
  request of that id, below the handler's counter, and no request is in the dictionaries
  of two connections. And of the children: they agree with the handlers, are allocated,
  and their ids are below the counters of their connections.
\<close>

definition world_inv :: "World \<Rightarrow> bool" where
  "world_inv w =
     ((\<forall>c rid a. requests (content_requestor (conns w c)) rid = Some a \<longrightarrow>
          a < next_addr (store w) \<and> request_id (objs (store w) a) = rid
          \<and> \<not> is_terminal (status (objs (store w) a))
          \<and> rid < next_request_id (content_requestor (conns w c)))
      \<and> (\<forall>c c' rid rid' a. requests (content_requestor (conns w c)) rid = Some a
            \<and> requests (content_requestor (conns w c')) rid' = Some a \<longrightarrow> c = c'))"

definition children_inv :: "World \<Rightarrow> (conn \<times> addr) set \<Rightarrow> bool" where
  "children_inv w S =
     (children_wf w S
      \<and> (\<forall>x\<in>S. snd x < next_addr (store w)
            \<and> request_id (objs (store w) (snd x))
                < next_request_id (content_requestor (conns w (fst x)))))"

section \<open>Validator (agent/validator.py)\<close>

text \<open>
  A job holds the aggregate request, the snapshots still to be checked (dictionaries with
  \<open>firstLine\<close>, \<open>lastLine\<close> and \<open>fingerprint\<close>, as the backend lists them), the running
  fingerprint and the record counter. \<open>post_log_status\<close> posts \<open>isCorrect\<close> for the log;
  the state keeps the list of the results posted, oldest first (a reply of the backend
  with \<open>success = false\<close> would end the process after the post).
\<close>

record LogValidatorJob =
  job :: AgentContentRequest
  job_log :: Log
  remaining_snapshots :: "SnapshotView list"
  job_fingerprint :: string
  records_counter :: int
  validation_finished :: bool

type_synonym posts = "(Log \<times> bool) list"

definition finish_validation :: "posts \<times> LogValidatorJob \<Rightarrow> string \<Rightarrow> posts \<times> LogValidatorJob" where
  "finish_validation pj fp =
     (if \<not> validation_finished (snd pj)
      then (fst pj @ [(job_log (snd pj),
                      length (remaining_snapshots (snd pj)) = 0 \<and> job_fingerprint (snd pj) = fp)],
            (snd pj)\<lparr>validation_finished := True\<rparr>)
      else pj)"

definition LogValidatorJob_init :: "(string \<Rightarrow> string) \<Rightarrow> posts \<Rightarrow> SnapshotView list
    \<Rightarrow> AgentContentRequest \<Rightarrow> Log \<Rightarrow> posts \<times> LogValidatorJob" where
  "LogValidatorJob_init H p snapshots request l =
     (let j = \<lparr>job = request, job_log = l, remaining_snapshots = snapshots,
               job_fingerprint = H '''', records_counter = 0, validation_finished = False\<rparr>
      in if length snapshots = 0 then finish_validation (p, j) (H '''') else (p, j))"

text \<open>\<open>__handle_new_record\<close>; \<open>self.remaining_snapshots[0]\<close> raises \<open>IndexError\<close> on an
  empty list.\<close>

definition handle_new_record :: "(string \<Rightarrow> string) \<Rightarrow> posts \<times> LogValidatorJob \<Rightarrow> string
    \<Rightarrow> exn + posts \<times> LogValidatorJob" where
  "handle_new_record H pj new_record =
     (if \<not> validation_finished (snd pj) then
        (case remaining_snapshots (snd pj) of
           [] \<Rightarrow> Inl IndexError
         | next_snapshot # rest \<Rightarrow>
             (let j1 = (snd pj)\<lparr>records_counter := records_counter (snd pj) + 1,
                                job_fingerprint := H (job_fingerprint (snd pj) @ new_record)\<rparr>
              in if lastLine next_snapshot < records_counter j1 then
                   (let j2 = j1\<lparr>remaining_snapshots := rest\<rparr>;
                        pj3 = (if job_fingerprint j2 \<noteq> fingerprint next_snapshot
                                  \<or> length rest = 0
                               then finish_validation (fst pj, j2) (fingerprint next_snapshot)
                               else (fst pj, j2))
                    in Inr (fst pj3, (snd pj3)\<lparr>job_fingerprint := H ''''\<rparr>))
                 else Inr (fst pj, j1)))
      else Inr pj)"

text \<open>
  The loop \<open>while new_record := lead.pop_record()\<close> over the lead's queue: it ends when
  \<open>pop_record\<close> returns \<open>None\<close> and also when it returns the empty string, which is false
  in a condition (the empty record has been taken off the queue by then). The result
  carries the queue that is left.
\<close>

fun drain :: "(string \<Rightarrow> string) \<Rightarrow> string list \<Rightarrow> posts \<times> LogValidatorJob
    \<Rightarrow> exn + string list \<times> posts \<times> LogValidatorJob" where
  "drain H [] pj = Inr ([], pj)"
| "drain H (new_record # queue) pj =
     (if new_record = [] then Inr (queue, pj)
      else (case handle_new_record H pj new_record of
              Inl x \<Rightarrow> Inl x
            | Inr pj' \<Rightarrow> drain H queue pj'))"

definition do_work :: "(string \<Rightarrow> string) \<Rightarrow> World \<times> posts \<times> LogValidatorJob
    \<Rightarrow> exn + World \<times> posts \<times> LogValidatorJob" where
  "do_work H wpj =
     (let w = fst wpj; p = fst (snd wpj); j = snd (snd wpj);
          g = get_lead w (job j); w' = fst (snd g); j' = j\<lparr>job := snd (snd g)\<rparr>
      in case fst g of
           None \<Rightarrow> Inr (w', p, j')
         | Some l \<Rightarrow>
             (case drain H (content (objs (store w') l)) (p, j') of
                Inl x \<Rightarrow> Inl x
              | Inr (queue, pj) \<Rightarrow>
                  Inr (w'\<lparr>store := (store w')
                          \<lparr>objs := (objs (store w'))(l := (objs (store w') l)\<lparr>content := queue\<rparr>)\<rparr>\<rparr>,
                       pj)))"

definition work_in_progress :: "World \<times> posts \<times> LogValidatorJob
    \<Rightarrow> bool \<times> World \<times> posts \<times> LogValidatorJob" where
  "work_in_progress wpj =
     (let w = fst wpj; p = fst (snd wpj); j = snd (snd wpj) in
      if is_dead (job j) then (False, w, finish_validation (p, j) [])
      else
        (let g = get_lead w (job j); w' = fst (snd g); j' = j\<lparr>job := snd (snd g)\<rparr> in
         (case fst g of
            None \<Rightarrow> True
          | Some l \<Rightarrow> status (objs (store w') l) = PENDING
                      \<or> status (objs (store w') l) = RECEIVING,
          w', p, j')))"

text \<open>One iteration of the worker's \<open>for job in self.requests\<close>: \<open>do_work\<close>, then
  \<open>work_in_progress\<close>, whose answer decides whether the job stays in the queue.\<close>

definition worker_step :: "(string \<Rightarrow> string) \<Rightarrow> World \<times> posts \<times> LogValidatorJob
    \<Rightarrow> exn + bool \<times> World \<times> posts \<times> LogValidatorJob" where
  "worker_step H wpj =
     (case do_work H wpj of Inl x \<Rightarrow> Inl x | Inr wpj' \<Rightarrow> Inr (work_in_progress wpj'))"

section \<open>Framing and the typed messages (networking.py)\<close>



































section \<open>Snapshot: fingerprint and line ranges\<close>

lemma foldl_add_record_hash:
  "cum_hash (foldl (add_record H) s rs) = foldl (\<lambda>h r. H (h @ data r)) (cum_hash s) rs"
  by (induction rs arbitrary: s) (simp_all add: add_record_def)

lemma run_op_hash:
  "cum_hash s = spec_fold H acc \<Longrightarrow>
   cum_hash (fst (foldl (run_op H) (s, vs) ops)) = spec_fold H (pending ops acc)"
proof (induction ops arbitrary: s vs acc)
  case Nil
  then show ?case by simp
next
  case (Cons op ops)
  show ?case
  proof (cases op)
    case (AddRecord r)
    have "cum_hash (add_record H s r) = spec_fold H (acc @ [r])"
      using Cons.prems by (simp add: add_record_def spec_fold_def)
    from Cons.IH [OF this] show ?thesis
      using AddRecord by simp
  next
    case UploadPrep
    have "cum_hash (reset H s) = spec_fold H []"
      by (simp add: reset_def spec_fold_def)
    from Cons.IH [OF this] show ?thesis
      using UploadPrep by (simp add: upload_prep_def)
  qed
qed

lemma run_op_count:
  "line_count s = int (length acc) \<Longrightarrow>
   line_count (fst (foldl (run_op H) (s, vs) ops)) = int (length (pending ops acc))"
proof (induction ops arbitrary: s vs acc)
  case Nil
  then show ?case by simp
next
  case (Cons op ops)
  show ?case
  proof (cases op)
    case (AddRecord r)
    have "line_count (add_record H s r) = int (length (acc @ [r]))"
      using Cons.prems by (simp add: add_record_def)
    from Cons.IH [OF this] show ?thesis
      using AddRecord by simp
  next
    case UploadPrep
    have "line_count (reset H s) = int (length ([] :: Record list))"
      by (simp add: reset_def)
    from Cons.IH [OF this] show ?thesis
      using UploadPrep by (simp add: upload_prep_def)
  qed
qed

text \<open>
  Claim C1. A snapshot created by the constructor and driven by any sequential history of
  \<open>add_record\<close> and \<open>upload_prep\<close> calls holds, as \<open>cum_hash\<close>, the left fold
  \<open>h0 = H ""\<close>, \<open>hi = H (h(i-1) \<parallel> ri.data)\<close> over the records added since the last
  \<open>upload_prep\<close>, and \<open>line_count\<close> is their number; so \<open>cum_hash = H ""\<close> whenever
  \<open>line_count = 0\<close>. In particular adding \<open>r1..rn\<close> to a fresh snapshot gives the fold over
  \<open>r1..rn\<close>, and after an \<open>upload_prep\<close> at any split point \<open>k\<close> the continuation
  \<open>r(k+1)..rn\<close> gives the same fold restarted from \<open>H ""\<close>.
\<close>

theorem snapshot_fingerprint_fold:
  "cum_hash (fst (run_ops H (Snapshot_init H l fl) ops)) = spec_fold H (pending ops [])
   \<and> line_count (fst (run_ops H (Snapshot_init H l fl) ops)) = int (length (pending ops []))
   \<and> (line_count (fst (run_ops H (Snapshot_init H l fl) ops)) = 0
        \<longrightarrow> cum_hash (fst (run_ops H (Snapshot_init H l fl) ops)) = H '''')
   \<and> cum_hash (foldl (add_record H) (Snapshot_init H l fl) rs) = spec_fold H rs
   \<and> cum_hash (foldl (add_record H)
        (snd (upload_prep H (foldl (add_record H) (Snapshot_init H l fl) (take k rs))))
        (drop k rs)) = spec_fold H (drop k rs)"
proof -
  let ?s0 = "Snapshot_init H l fl"
  have h0: "cum_hash ?s0 = spec_fold H []"
    by (simp add: Snapshot_init_def spec_fold_def)
  have c0: "line_count ?s0 = int (length ([] :: Record list))"
    by (simp add: Snapshot_init_def)
  have a: "cum_hash (fst (run_ops H ?s0 ops)) = spec_fold H (pending ops [])"
    unfolding run_ops_def by (rule run_op_hash [OF h0])
  have b: "line_count (fst (run_ops H ?s0 ops)) = int (length (pending ops []))"
    unfolding run_ops_def by (rule run_op_count [OF c0])
  have c: "line_count (fst (run_ops H ?s0 ops)) = 0
      \<longrightarrow> cum_hash (fst (run_ops H ?s0 ops)) = H ''''"
    using a b by (simp add: spec_fold_def)
  have d: "cum_hash (foldl (add_record H) ?s0 rs) = spec_fold H rs"
    by (simp add: foldl_add_record_hash spec_fold_def Snapshot_init_def)
  have e: "cum_hash (foldl (add_record H)
        (snd (upload_prep H (foldl (add_record H) ?s0 (take k rs)))) (drop k rs))
      = spec_fold H (drop k rs)"
    by (simp add: foldl_add_record_hash spec_fold_def upload_prep_def reset_def)
  from a b c d e show ?thesis by blast
qed

theorem snapshot_fingerprint_fold_witness:
  "line_count (fst (run_ops (\<lambda>s. CHR ''h'' # s) (Snapshot_init (\<lambda>s. CHR ''h'' # s)
       \<lparr>log_name = ''/t/a.log'', log_id = Some ''L1''\<rparr> 5)
       [AddRecord \<lparr>rec_log = \<lparr>log_name = ''/t/a.log'', log_id = None\<rparr>, data = ''x'',
          timestamp = 0\<rparr>, UploadPrep])) = 0
   \<and> cum_hash (fst (run_ops (\<lambda>s. CHR ''h'' # s) (Snapshot_init (\<lambda>s. CHR ''h'' # s)
       \<lparr>log_name = ''/t/a.log'', log_id = Some ''L1''\<rparr> 5)
       [AddRecord \<lparr>rec_log = \<lparr>log_name = ''/t/a.log'', log_id = None\<rparr>, data = ''x'',
          timestamp = 0\<rparr>, UploadPrep])) = ''h''"
  using snapshot_fingerprint_fold [of "\<lambda>s. CHR ''h'' # s"
      "\<lparr>log_name = ''/t/a.log'', log_id = Some ''L1''\<rparr>" 5
      "[AddRecord \<lparr>rec_log = \<lparr>log_name = ''/t/a.log'', log_id = None\<rparr>, data = ''x'',
          timestamp = 0\<rparr>, UploadPrep]"]
  by (simp add: run_ops_def upload_prep_def reset_def add_record_def Snapshot_init_def)

lemma covered_run:
  "0 \<le> line_count s \<Longrightarrow>
   covered (foldl (run_op H) (s, vs) ops) =
     concat (map view_lines (filter (\<lambda>v. firstLine v \<le> lastLine v) vs))
       @ [first_line s..get_next_line s + int (adds ops) - 1]"
proof (induction ops arbitrary: s vs)
  case Nil
  then show ?case by (simp add: covered_def)
next
  case (Cons op ops)
  show ?case
  proof (cases op)
    case (AddRecord r)
    have "0 \<le> line_count (add_record H s r)"
      using Cons.prems by (simp add: add_record_def)
    from Cons.IH [OF this, of vs] show ?thesis
      using AddRecord by (simp add: add_record_def get_next_line_def add.assoc)
  next
    case UploadPrep
    let ?k = "get_next_line s + int (adds ops) - 1"
    have nonneg: "0 \<le> line_count (reset H s)"
      by (simp add: reset_def)
    have step: "covered (foldl (run_op H) (s, vs) (op # ops)) =
        concat (map view_lines (filter (\<lambda>v. firstLine v \<le> lastLine v) (vs @ [to_dict s])))
          @ [get_next_line s..?k]"
      using Cons.IH [OF nonneg, of "vs @ [to_dict s]"] UploadPrep
      by (simp add: upload_prep_def reset_def get_next_line_def)
    have join: "(if firstLine (to_dict s) \<le> lastLine (to_dict s)
          then view_lines (to_dict s) else []) @ [get_next_line s..?k]
        = [first_line s..?k]"
    proof (cases "line_count s = 0")
      case True
      then show ?thesis by (simp add: to_dict_def get_next_line_def)
    next
      case False
      with Cons.prems have pos: "0 < line_count s" by simp
      have "[first_line s..?k] = [first_line s..get_next_line s - 1]
          @ [get_next_line s - 1 + 1..?k]"
        by (rule upto_split2) (use pos in \<open>simp_all add: get_next_line_def\<close>)
      with pos show ?thesis
        by (simp add: to_dict_def view_lines_def get_next_line_def)
    qed
    have "adds (op # ops) = adds ops"
      using UploadPrep by simp
    with step join show ?thesis
      by (simp split: if_splits)
  qed
qed

text \<open>
  Claim C2. For a snapshot starting at \<open>first_line = 0\<close> and any sequential interleaving
  of \<open>k\<close> \<open>add_record\<close> calls with any number of \<open>upload_prep\<close> calls, the line ranges
  \<open>[firstLine, lastLine]\<close> of the returned views with \<open>firstLine \<le> lastLine\<close>, taken in
  the order of the calls and followed by the range of the snapshot in progress, list
  \<open>0, 1, \<dots>, k - 1\<close> exactly: contiguous, disjoint, no gap and no overlap. \<open>upload_prep\<close>
  returns the view and the reset snapshot from one state, so no record falls between them.
\<close>

theorem upload_views_cover_once:
  "covered (run_ops H (Snapshot_init H l 0) ops) = [0..int (adds ops) - 1]"
proof -
  have "0 \<le> line_count (Snapshot_init H l 0)"
    by (simp add: Snapshot_init_def)
  from covered_run [OF this, of H "[]" ops] show ?thesis
    by (simp add: run_ops_def Snapshot_init_def get_next_line_def)
qed

lemma upload_records_position:
  "snd (upload_records H ok c) = Inr c' \<Longrightarrow>
   map_of c' n = map_option (\<lambda>s. snd (upload_prep H s)) (map_of c n)"
proof (induction c arbitrary: c')
  case Nil
  then show ?case by simp
next
  case (Cons a c)
  obtain m s where a: "a = (m, s)" by (cases a)
  obtain p r where ps: "post_snapshot H ok s = (p, r)" by (cases "post_snapshot H ok s")
  obtain qs r' where rec: "upload_records H ok c = (qs, r')"
    by (cases "upload_records H ok c")
  from Cons.prems a ps rec obtain s' rest' where
    r: "r = Inr s'" and r': "r' = Inr rest'" and c': "c' = (m, s') # rest'"
    by (auto split: sum.splits)
  have s': "s' = snd (upload_prep H s)"
    using ps r by (auto simp: post_snapshot_def Let_def split: if_splits)
  have "map_of rest' n = map_option (\<lambda>s. snd (upload_prep H s)) (map_of c n)"
    using Cons.IH [of rest'] rec r' by simp
  then show ?case
    using a c' s' by simp
qed

text \<open>
  Claim C10. \<open>get_next_line\<close> returns the same value immediately before and after
  \<open>upload_prep\<close>, and after \<open>reset\<close>: the reset rebases \<open>first_line\<close> to the old next line
  with \<open>line_count = 0\<close>. Hence the position \<open>get_log_position\<close> reports for any log is the
  same before and after \<open>upload_records\<close>, whenever the upload returns (the backend
  accepted every posted view).
\<close>

theorem next_line_unchanged_by_upload:
  "get_next_line (snd (upload_prep H s)) = get_next_line s
   \<and> get_next_line (reset H s) = get_next_line s
   \<and> first_line (reset H s) = get_next_line s
   \<and> line_count (reset H s) = 0
   \<and> (\<forall>c'. snd (upload_records H ok c) = Inr c'
         \<longrightarrow> get_log_position c' l = get_log_position c l)"
proof -
  have a: "get_next_line (reset H s') = get_next_line s'" for s'
    by (simp add: reset_def get_next_line_def)
  have b: "get_log_position c' l = get_log_position c l"
    if "snd (upload_records H ok c) = Inr c'" for c'
    using upload_records_position [OF that, of "log_name l"] a
    by (cases "map_of c (log_name l)") (simp_all add: get_log_position_def upload_prep_def)
  show ?thesis
    using a b by (simp add: upload_prep_def reset_def)
qed

theorem next_line_unchanged_by_upload_witness:
  "snd (upload_records (\<lambda>s. CHR ''h'' # s) (\<lambda>v. True)
      [(''/t/a.log'', \<lparr>snap_log = \<lparr>log_name = ''/t/a.log'', log_id = Some ''L1''\<rparr>,
          cum_hash = ''hhx'', first_line = 5, line_count = 2\<rparr>)])
     = Inr [(''/t/a.log'', \<lparr>snap_log = \<lparr>log_name = ''/t/a.log'', log_id = Some ''L1''\<rparr>,
          cum_hash = ''h'', first_line = 7, line_count = 0\<rparr>)]
   \<and> get_log_position
       [(''/t/a.log'', \<lparr>snap_log = \<lparr>log_name = ''/t/a.log'', log_id = Some ''L1''\<rparr>,
          cum_hash = ''h'', first_line = 7, line_count = 0\<rparr>)]
       \<lparr>log_name = ''/t/a.log'', log_id = None\<rparr> = 7
   \<and> get_log_position
       [(''/t/a.log'', \<lparr>snap_log = \<lparr>log_name = ''/t/a.log'', log_id = Some ''L1''\<rparr>,
          cum_hash = ''hhx'', first_line = 5, line_count = 2\<rparr>)]
       \<lparr>log_name = ''/t/a.log'', log_id = None\<rparr> = 7"
  using next_line_unchanged_by_upload [of "\<lambda>s. CHR ''h'' # s"
      "\<lparr>snap_log = \<lparr>log_name = ''/t/a.log'', log_id = Some ''L1''\<rparr>,
          cum_hash = ''hhx'', first_line = 5, line_count = 2\<rparr>" "\<lambda>v. True"
      "[(''/t/a.log'', \<lparr>snap_log = \<lparr>log_name = ''/t/a.log'', log_id = Some ''L1''\<rparr>,
          cum_hash = ''hhx'', first_line = 5, line_count = 2\<rparr>)]"
      "\<lparr>log_name = ''/t/a.log'', log_id = None\<rparr>"]
  by (simp add: post_snapshot_def upload_prep_def reset_def to_dict_def get_next_line_def
      get_log_position_def)

section \<open>Content requests: ordering of batches, dropped requests\<close>

lemma foldl_cr_add_record:
  "foldl cr_add_record r xs =
     r\<lparr>content := content r @ xs, next_record_ind := next_record_ind r + int (length xs)\<rparr>"
  by (induction xs arbitrary: r) (simp_all add: cr_add_record_def)

text \<open>
  What \<open>add_records\<close> does for a request in the handler's dictionary, in terms of the
  request's own \<open>got_all_requested_records\<close>: it raises \<open>ValueError\<close> when that test
  holds or \<open>begin_record\<close> is not the next index, and otherwise appends the records and
  advances the next index by their number, whatever \<open>end_record\<close> is. Of two batches
  accepted one after the other, the second begins at the end of the first plus one.
\<close>

lemma add_records_live:
  "requests h rid = Some a \<Longrightarrow>
   (isl (add_records st h rid b records)
      \<longleftrightarrow> next_record_ind (objs st a) \<noteq> b \<or> got_all_requested_records (objs st a))
   \<and> (isl (add_records st h rid b records)
        \<longrightarrow> (\<exists>msg. add_records st h rid b records = Inl (ValueError msg)))
   \<and> (\<not> isl (add_records st h rid b records) \<longrightarrow>
        add_records st h rid b records =
          Inr (st\<lparr>objs := (objs st)(a := (objs st a)
                 \<lparr>content := content (objs st a) @ records,
                  next_record_ind := next_record_ind (objs st a) + int (length records)\<rparr>)\<rparr>))
   \<and> (\<forall>st1 st2 b2 records2.
         add_records st h rid b records = Inr st1
         \<and> add_records st1 h rid b2 records2 = Inr st2
         \<longrightarrow> b2 = (b + int (length records) - 1) + 1)"
proof -
  assume live: "requests h rid = Some a"
  have 1: "isl (add_records st h rid b records)
      \<longleftrightarrow> next_record_ind (objs st a) \<noteq> b \<or> got_all_requested_records (objs st a)"
    using live by (auto simp: add_records_def)
  have 2: "isl (add_records st h rid b records)
      \<longrightarrow> (\<exists>msg. add_records st h rid b records = Inl (ValueError msg))"
    using live by (simp add: add_records_def)
  have 3: "\<not> isl (add_records st h rid b records) \<longrightarrow>
      add_records st h rid b records =
        Inr (st\<lparr>objs := (objs st)(a := (objs st a)
               \<lparr>content := content (objs st a) @ records,
                next_record_ind := next_record_ind (objs st a) + int (length records)\<rparr>)\<rparr>)"
    using live by (simp add: add_records_def foldl_cr_add_record)
  have 4: "b2 = (b + int (length records) - 1) + 1"
    if "add_records st h rid b records = Inr st1"
      and "add_records st1 h rid b2 records2 = Inr st2" for st1 st2 b2 records2
  proof -
    from that(1) live have b: "next_record_ind (objs st a) = b"
      and st1: "st1 = st\<lparr>objs := (objs st)(a := foldl cr_add_record (objs st a) records)\<rparr>"
      by (auto simp: add_records_def split: if_splits)
    from that(2) live have "next_record_ind (objs st1 a) = b2"
      by (auto simp: add_records_def split: if_splits)
    with b st1 show ?thesis
      by (simp add: foldl_cr_add_record)
  qed
  from 1 2 3 4 show ?thesis by blast
qed

text \<open>
  Claim C6 says that \<open>add_records\<close> raises once all requested records have been received,
  and so do the docstring of \<open>got_all_requested_records\<close> (``Returns whether all records
  that were requested, have already been received'') and the message of the
  \<open>ValueError\<close>. The code does not: the test is \<open>next_record_ind == end_record + 1\<close>, and
  \<open>add_records\<close> never compares a batch with \<open>end_record\<close>. For the request of the records
  0 to 4, the first request of a new handler, a first batch of the seven records 0 to 6
  is accepted and leaves the next index at 7, past \<open>end_record + 1\<close>; the test is false
  from then on, and the next batch, beginning at 7, is accepted too, although the records
  0 to 4 have all been received. After a first batch of exactly the records 0 to 4 the
  test holds and the same call raises.
\<close>

theorem batch_after_overrun_is_accepted:
  "(case create_request Store_init ContentRequestHandler_init
          \<lparr>log_name = ''/t/a.log'', log_id = Some ''L1''\<rparr> 0 4 of
      (a, st, h) \<Rightarrow>
        requests h 0 = Some a
        \<and> next_record_ind (objs st a) = 0 \<and> end_record (objs st a) = 4
        \<and> (case add_records st h 0 0 [''r0'', ''r1'', ''r2'', ''r3'', ''r4'', ''r5'', ''r6''] of
              Inl x \<Rightarrow> False
            | Inr st1 \<Rightarrow>
                next_record_ind (objs st1 a) = 7 \<and> end_record (objs st1 a) = 4
                \<and> content (objs st1 a) = [''r0'', ''r1'', ''r2'', ''r3'', ''r4'', ''r5'', ''r6'']
                \<and> \<not> got_all_requested_records (objs st1 a)
                \<and> (case add_records st1 h 0 7 [''r7''] of
                      Inl x \<Rightarrow> False
                    | Inr st2 \<Rightarrow>
                        next_record_ind (objs st2 a) = 8
                        \<and> content (objs st2 a)
                            = [''r0'', ''r1'', ''r2'', ''r3'', ''r4'', ''r5'', ''r6'', ''r7'']))
        \<and> (case add_records st h 0 0 [''r0'', ''r1'', ''r2'', ''r3'', ''r4''] of
              Inl x \<Rightarrow> False
            | Inr st1 \<Rightarrow>
                next_record_ind (objs st1 a) = 5
                \<and> got_all_requested_records (objs st1 a)
                \<and> add_records st1 h 0 5 [''r5'']
                    = Inl (ValueError ''got next records for a request, although all requested records have already been sent'')))"
  by (simp add: create_request_def Store_init_def ContentRequestHandler_init_def
      ContentRequest_init_def add_records_def got_all_requested_records_def
      foldl_cr_add_record cr_add_record_def Let_def)

lemma handler_inv_init: "handler_inv (Store_init, ContentRequestHandler_init)"
  by (simp add: handler_inv_def Store_init_def ContentRequestHandler_init_def)

lemma handler_invI:
  assumes "\<And>rid a. requests h rid = Some a \<Longrightarrow> a < next_addr st"
    and "\<And>rid a. requests h rid = Some a \<Longrightarrow> request_id (objs st a) = rid"
    and "\<And>rid a. requests h rid = Some a \<Longrightarrow> \<not> is_terminal (status (objs st a))"
    and "\<And>a. a < next_addr st \<Longrightarrow> request_id (objs st a) < next_request_id h"
    and "\<And>a. a < next_addr st \<Longrightarrow> \<not> is_terminal (status (objs st a)) \<Longrightarrow>
          requests h (request_id (objs st a)) = Some a"
    and "\<And>a a'. a < next_addr st \<Longrightarrow> a' < next_addr st \<Longrightarrow>
          request_id (objs st a) = request_id (objs st a') \<Longrightarrow> a = a'"
  shows "handler_inv (st, h)"
  using assms unfolding handler_inv_def by auto

lemma handler_invD:
  assumes "handler_inv (st, h)"
  shows "\<And>rid a. requests h rid = Some a \<Longrightarrow> a < next_addr st"
    and "\<And>rid a. requests h rid = Some a \<Longrightarrow> request_id (objs st a) = rid"
    and "\<And>rid a. requests h rid = Some a \<Longrightarrow> \<not> is_terminal (status (objs st a))"
    and "\<And>a. a < next_addr st \<Longrightarrow> request_id (objs st a) < next_request_id h"
    and "\<And>a. a < next_addr st \<Longrightarrow> \<not> is_terminal (status (objs st a)) \<Longrightarrow>
          requests h (request_id (objs st a)) = Some a"
    and "\<And>a a'. a < next_addr st \<Longrightarrow> a' < next_addr st \<Longrightarrow>
          request_id (objs st a) = request_id (objs st a') \<Longrightarrow> a = a'"
  using assms unfolding handler_inv_def by auto

lemma create_request_inv:
  assumes inv: "handler_inv (st, h)"
  shows "handler_inv (snd (create_request st h l b e))"
proof -
  note D = handler_invD [OF inv]
  let ?a = "next_addr st" and ?rid = "next_request_id h"
  let ?st = "st\<lparr>objs := (objs st)(?a := ContentRequest_init ?rid l b e), next_addr := Suc ?a\<rparr>"
  let ?h = "h\<lparr>requests := (requests h)(?rid \<mapsto> ?a), next_request_id := ?rid + 1\<rparr>"
  have fresh: "requests h ?rid = None"
  proof (cases "requests h ?rid")
    case (Some a)
    with D(1) [OF Some] D(2) [OF Some] D(4) [of a] show ?thesis by simp
  qed simp
  have "handler_inv (?st, ?h)"
  proof (rule handler_invI)
    fix rid a assume r: "requests ?h rid = Some a"
    show "a < next_addr ?st"
      using r D(1) [of rid a] by (auto split: if_splits)
    show "request_id (objs ?st a) = rid"
      using r D(1) [of rid a] D(2) [of rid a]
      by (auto simp: ContentRequest_init_def split: if_splits)
    show "\<not> is_terminal (status (objs ?st a))"
      using r D(1) [of rid a] D(3) [of rid a]
      by (auto simp: ContentRequest_init_def is_terminal_def split: if_splits)
  next
    fix a assume a: "a < next_addr ?st"
    show "request_id (objs ?st a) < next_request_id ?h"
      using a D(4) [of a] by (auto simp: ContentRequest_init_def less_Suc_eq)
    assume nt: "\<not> is_terminal (status (objs ?st a))"
    show "requests ?h (request_id (objs ?st a)) = Some a"
    proof (cases "a = ?a")
      case True
      then show ?thesis by (simp add: ContentRequest_init_def)
    next
      case False
      with a have lt: "a < ?a" by simp
      from False nt have "\<not> is_terminal (status (objs st a))" by simp
      from D(5) [OF lt this] D(4) [OF lt] False show ?thesis by simp
    qed
  next
    fix a a' assume "a < next_addr ?st" "a' < next_addr ?st"
      and "request_id (objs ?st a) = request_id (objs ?st a')"
    then show "a = a'"
      using D(4) [of a] D(4) [of a'] D(6) [of a a']
      by (auto simp: ContentRequest_init_def less_Suc_eq split: if_splits)
  qed
  then show ?thesis by (simp add: create_request_def Let_def)
qed

lemma add_records_inv:
  assumes inv: "handler_inv (st, h)" and ok: "add_records st h rid b records = Inr st'"
  shows "handler_inv (st', h)"
proof (cases "requests h rid")
  case None
  with ok inv show ?thesis by (simp add: add_records_def)
next
  case (Some a')
  note D = handler_invD [OF inv]
  from ok Some have st': "st' = st\<lparr>objs := (objs st)(a' := (objs st a')
      \<lparr>content := content (objs st a') @ records,
       next_record_ind := next_record_ind (objs st a') + int (length records)\<rparr>)\<rparr>"
    by (auto simp: add_records_def foldl_cr_add_record split: if_splits)
  have same: "request_id (objs st' a) = request_id (objs st a)"
      "status (objs st' a) = status (objs st a)" "next_addr st' = next_addr st" for a
    by (simp_all add: st')
  show ?thesis
    by (rule handler_invI) (use D in \<open>simp_all add: same\<close>)
qed

lemma set_status_inv:
  assumes inv: "handler_inv (st, h)"
  shows "handler_inv (set_status st h rid s)"
proof (cases "requests h rid")
  case None
  with inv show ?thesis by (simp add: set_status_def)
next
  case (Some a')
  note D = handler_invD [OF inv]
  let ?st = "st\<lparr>objs := (objs st)(a' := cr_set_status (objs st a') s)\<rparr>"
  let ?h = "if s = NOT_FOUND \<or> s = CLOSED \<or> s = DROPPED
           then h\<lparr>requests := (requests h)(rid := None)\<rparr> else h"
  have id: "request_id (objs ?st a) = request_id (objs st a)" "next_addr ?st = next_addr st" for a
    by (simp_all add: cr_set_status_def)
  have st: "status (objs ?st a) = (if a = a' then s else status (objs st a))" for a
    by (simp add: cr_set_status_def)
  have a'id: "request_id (objs st a') = rid" using D(2) [OF Some] .
  have "handler_inv (?st, ?h)"
  proof (rule handler_invI)
    fix rid0 a assume r: "requests ?h rid0 = Some a"
    then have r0: "requests h rid0 = Some a" by (auto split: if_splits)
    show "a < next_addr ?st" using D(1) [OF r0] by simp
    show "request_id (objs ?st a) = rid0" using D(2) [OF r0] by (auto simp: cr_set_status_def)
    show "\<not> is_terminal (status (objs ?st a))"
    proof (cases "a = a'")
      case True
      with r0 a'id D(2) [OF r0] have "rid0 = rid" by simp
      with r True show ?thesis by (auto simp: cr_set_status_def is_terminal_def split: if_splits)
    next
      case False
      with D(3) [OF r0] show ?thesis by (auto simp: cr_set_status_def)
    qed
  next
    fix a assume a: "a < next_addr ?st"
    then have a0: "a < next_addr st" by simp
    show "request_id (objs ?st a) < next_request_id ?h"
      using D(4) [OF a0] by (auto simp: cr_set_status_def)
    assume nt: "\<not> is_terminal (status (objs ?st a))"
    show "requests ?h (request_id (objs ?st a)) = Some a"
    proof (cases "a = a'")
      case True
      with nt have "\<not> is_terminal s" by (auto simp: cr_set_status_def)
      then have "?h = h" by (auto simp: is_terminal_def)
      with True Some a'id show ?thesis by (auto simp: cr_set_status_def)
    next
      case False
      with nt have "\<not> is_terminal (status (objs st a))" by (auto simp: cr_set_status_def)
      from D(5) [OF a0 this] have reg: "requests h (request_id (objs st a)) = Some a" .
      with Some False have "request_id (objs st a) \<noteq> rid" by auto
      with reg show ?thesis by (auto simp: cr_set_status_def)
    qed
  next
    fix a a'' assume "a < next_addr ?st" "a'' < next_addr ?st"
      and "request_id (objs ?st a) = request_id (objs ?st a'')"
    then show "a = a''"
      using D(6) [of a a''] by (auto simp: cr_set_status_def split: if_splits)
  qed
  with Some show ?thesis by (simp add: set_status_def)
qed

lemma handler_step_inv:
  assumes "handler_inv sh" and "handler_step sh ev = Inr sh'"
  shows "handler_inv sh'"
proof -
  obtain st h where sh: "sh = (st, h)" by (cases sh)
  show ?thesis
  proof (cases ev)
    case (Create l b e)
    with assms sh create_request_inv [of st h l b e] show ?thesis by simp
  next
    case (Records rid b records)
    with assms sh obtain st' where "add_records st h rid b records = Inr st'" "sh' = (st', h)"
      by (auto split: sum.splits)
    with assms(1) sh add_records_inv show ?thesis by blast
  next
    case (SetStatus rid s)
    with assms sh set_status_inv [of st h rid s] show ?thesis by simp
  next
    case (Drop a)
    with assms sh set_status_inv [of st h "request_id (objs st a)" DROPPED] show ?thesis
      by (simp add: drop_content_request_def)
  qed
qed

lemma handler_run_inv:
  "handler_inv sh \<Longrightarrow> handler_run sh evs = Inr sh' \<Longrightarrow> handler_inv sh'"
proof (induction evs arbitrary: sh)
  case Nil
  then show ?case by simp
next
  case (Cons ev evs)
  from Cons.prems(2) obtain sh1 where 1: "handler_step sh ev = Inr sh1"
    and 2: "handler_run sh1 evs = Inr sh'"
    by (auto split: sum.splits)
  from Cons.IH [OF handler_step_inv [OF Cons.prems(1) 1] 2] show ?case .
qed

lemma set_status_frame:
  assumes inv: "handler_inv (st, h)"
    and un: "requests h (request_id (objs st a)) = None"
  shows "next_addr (fst (set_status st h rid s)) = next_addr st
    \<and> objs (fst (set_status st h rid s)) a = objs st a
    \<and> requests (snd (set_status st h rid s)) (request_id (objs st a)) = None"
proof (cases "requests h rid")
  case None
  with un show ?thesis by (simp add: set_status_def)
next
  case (Some a')
  from handler_invD(2) [OF inv Some] un Some have "a' \<noteq> a" by auto
  with Some un show ?thesis by (simp add: set_status_def)
qed

lemma unregistered_frame_step:
  assumes inv: "handler_inv (st, h)" and a: "a < next_addr st"
    and un: "requests h (request_id (objs st a)) = None"
    and step: "handler_step (st, h) ev = Inr (st', h')"
  shows "a < next_addr st' \<and> objs st' a = objs st a
    \<and> requests h' (request_id (objs st a)) = None"
proof (cases ev)
  case (Create l b e)
  from handler_invD(4) [OF inv a] have "request_id (objs st a) \<noteq> next_request_id h" by simp
  with Create step a un show ?thesis
    by (auto simp: create_request_def Let_def)
next
  case (Records rid b records)
  show ?thesis
  proof (cases "requests h rid")
    case None
    with Records step a un show ?thesis by (simp add: add_records_def)
  next
    case (Some a')
    from handler_invD(2) [OF inv Some] un Some have "a' \<noteq> a" by auto
    with Records step a un Some show ?thesis
      by (auto simp: add_records_def split: if_splits)
  qed
next
  case (SetStatus rid s)
  with step set_status_frame [OF inv un, of rid s] a show ?thesis by auto
next
  case (Drop a2)
  with step set_status_frame [OF inv un, of "request_id (objs st a2)" DROPPED] a show ?thesis
    by (auto simp: drop_content_request_def)
qed

lemma unregistered_frame_run:
  assumes "handler_inv sh" and "a < next_addr (fst sh)"
    and "requests (snd sh) (request_id (objs (fst sh) a)) = None"
    and "handler_run sh evs = Inr sh'"
  shows "handler_inv sh' \<and> a < next_addr (fst sh') \<and> objs (fst sh') a = objs (fst sh) a
    \<and> requests (snd sh') (request_id (objs (fst sh) a)) = None"
  using assms
proof (induction evs arbitrary: sh)
  case Nil
  then show ?case by simp
next
  case (Cons ev evs)
  from Cons.prems(4) obtain sh1 where 1: "handler_step sh ev = Inr sh1"
    and 2: "handler_run sh1 evs = Inr sh'"
    by (auto split: sum.splits)
  have inv1: "handler_inv sh1" by (rule handler_step_inv [OF Cons.prems(1) 1])
  have f: "a < next_addr (fst sh1) \<and> objs (fst sh1) a = objs (fst sh) a
      \<and> requests (snd sh1) (request_id (objs (fst sh) a)) = None"
    using unregistered_frame_step [of "fst sh" "snd sh" a ev "fst sh1" "snd sh1"]
      Cons.prems(1-3) 1 by simp
  from Cons.IH [OF inv1, of] f 2 show ?case by simp
qed

lemma unregistered_event_noop:
  "requests h rid = None \<Longrightarrow> handler_step (st, h) (on_request rid we) = Inr (st, h)"
  by (cases we) (simp_all add: add_records_def set_status_def)

text \<open>
  Claim C9. Take any state a handler reaches from its creation and any request object
  it allocated. \<open>drop_content_request\<close> leaves the request terminal (a request still
  \<open>PENDING\<close> or \<open>RECEIVING\<close> becomes \<open>DROPPED\<close>, a request already terminal keeps its
  status) and dropping again changes nothing. Afterwards, whatever else the handler
  processes, the request object stays as it is, and every wire event carrying its
  request id (a batch of records or a status, in any number) leaves the whole state
  unchanged and raises no error.
\<close>

theorem dropped_request_is_inert:
  "handler_run (Store_init, ContentRequestHandler_init) evs = Inr (st, h) \<Longrightarrow>
   a < next_addr st \<Longrightarrow>
     is_terminal (status (objs (fst (drop_content_request st h a)) a))
   \<and> status (objs (fst (drop_content_request st h a)) a)
       = (if is_terminal (status (objs st a)) then status (objs st a) else DROPPED)
   \<and> drop_content_request (fst (drop_content_request st h a))
         (snd (drop_content_request st h a)) a = drop_content_request st h a
   \<and> handler_run (drop_content_request st h a)
         (map (on_request (request_id (objs st a))) wes) = Inr (drop_content_request st h a)
   \<and> (\<forall>evs2 sh2. handler_run (drop_content_request st h a) evs2 = Inr sh2 \<longrightarrow>
         objs (fst sh2) a = objs (fst (drop_content_request st h a)) a
         \<and> handler_step sh2 (on_request (request_id (objs st a)) we) = Inr sh2)"
proof -
  assume run: "handler_run (Store_init, ContentRequestHandler_init) evs = Inr (st, h)"
    and a: "a < next_addr st"
  let ?rid = "request_id (objs st a)"
  let ?d = "drop_content_request st h a"
  have inv: "handler_inv (st, h)"
    by (rule handler_run_inv [OF handler_inv_init run])
  have invd: "handler_inv ?d"
    unfolding drop_content_request_def by (rule set_status_inv [OF inv])
  have status: "status (objs (fst ?d) a)
      = (if is_terminal (status (objs st a)) then status (objs st a) else DROPPED)"
  proof (cases "requests h ?rid")
    case None
    with handler_invD(5) [OF inv a] have "is_terminal (status (objs st a))" by auto
    with None show ?thesis by (simp add: drop_content_request_def set_status_def)
  next
    case (Some a')
    from handler_invD(6) [OF inv handler_invD(1) [OF inv Some] a handler_invD(2) [OF inv Some]]
    have "a' = a" .
    with handler_invD(3) [OF inv Some]
    have "a' = a" "\<not> is_terminal (status (objs st a))" by auto
    with Some show ?thesis
      by (simp add: drop_content_request_def set_status_def cr_set_status_def)
  qed
  then have terminal: "is_terminal (status (objs (fst ?d) a))"
    by (simp add: is_terminal_def)
  have addr: "a < next_addr (fst ?d)"
    using a by (simp add: drop_content_request_def set_status_def split: option.splits)
  have rid: "request_id (objs (fst ?d) a) = ?rid"
    by (simp add: drop_content_request_def set_status_def cr_set_status_def
        split: option.splits)
  have un: "requests (snd ?d) ?rid = None"
    by (simp add: drop_content_request_def set_status_def split: option.splits)
  have idem: "drop_content_request (fst ?d) (snd ?d) a = ?d"
    using un rid by (simp add: drop_content_request_def [of "fst ?d"] set_status_def)
  have later: "objs (fst sh2) a = objs (fst ?d) a
      \<and> handler_step sh2 (on_request ?rid we') = Inr sh2"
    if "handler_run ?d evs2 = Inr sh2" for evs2 sh2 we'
  proof -
    from unregistered_frame_run [OF invd addr _ that] un rid
    have "objs (fst sh2) a = objs (fst ?d) a" "requests (snd sh2) ?rid = None"
      by simp_all
    with unregistered_event_noop [of "snd sh2" ?rid "fst sh2" we'] show ?thesis by simp
  qed
  have wire: "handler_run ?d (map (on_request ?rid) wes) = Inr ?d"
  proof (induction wes)
    case Nil
    show ?case by simp
  next
    case (Cons we' wes)
    have "handler_step ?d (on_request ?rid we') = Inr ?d"
      using later [of "[]" ?d we'] by simp
    with Cons show ?case by simp
  qed
  from terminal status idem wire later show ?thesis by blast
qed

theorem dropped_request_is_inert_witness:
  "(case handler_run (Store_init, ContentRequestHandler_init)
       [Create \<lparr>log_name = ''/t/a.log'', log_id = Some ''L1''\<rparr> 0 4,
        SetStatus 0 RECEIVING, Records 0 0 [''x'']] of
      Inl x \<Rightarrow> False
    | Inr (st, h) \<Rightarrow>
        0 < next_addr st \<and> status (objs st 0) = RECEIVING \<and> requests h 0 = Some 0
        \<and> status (objs (fst (drop_content_request st h 0)) 0) = DROPPED
        \<and> requests (snd (drop_content_request st h 0)) 0 = None
        \<and> handler_run (drop_content_request st h 0)
             [Records 0 1 [''y''], SetStatus 0 CLOSED, Records 0 7 [''z'']]
            = Inr (drop_content_request st h 0))"
proof -
  obtain st h where run: "handler_run (Store_init, ContentRequestHandler_init)
       [Create \<lparr>log_name = ''/t/a.log'', log_id = Some ''L1''\<rparr> 0 4,
        SetStatus 0 RECEIVING, Records 0 0 [''x'']] = Inr (st, h)"
    and facts: "next_addr st = 1" "status (objs st 0) = RECEIVING" "requests h 0 = Some 0"
      "request_id (objs st 0) = 0"
    by (simp add: create_request_def set_status_def add_records_def Store_init_def
        ContentRequestHandler_init_def ContentRequest_init_def cr_set_status_def
        got_all_requested_records_def cr_add_record_def Let_def)
  have a: "0 < next_addr st" using facts by simp
  from dropped_request_is_inert [OF run a,
      of "[WireRecords 1 [''y''], WireStatus CLOSED, WireRecords 7 [''z'']]"]
  show ?thesis
    using run facts
    by (simp add: is_terminal_def drop_content_request_def [of st] set_status_def)
qed

section \<open>Content server: the end of the exchange\<close>

text \<open>
  Where the file holds at least \<open>begin_record\<close> lines, the exchange is \<open>FOUND\<close>, a stream
  of contiguous batches of at most 20 records starting at \<open>begin_record\<close>, and \<open>END\<close>;
  without a watch it is the single status \<open>NOT_FOUND\<close>.
\<close>

lemma send_loop_batches:
  "snd (send_loop rid stream i e) = None
   \<and> batches_from rid i (fst (send_loop rid stream i e))"
proof (induction rid stream i e rule: send_loop.induct)
  case (1 rid stream i e)
  let ?n = "min (e - i + 1) BATCH_SIZE"
  let ?records = "fst (read_records stream ?n)"
  show ?case
  proof (cases "i \<le> e \<and> ?records \<noteq> []")
    case False
    then show ?thesis
      by (subst (1 2) send_loop.simps) (auto simp: Let_def)
  next
    case True
    then have le: "i \<le> e" and ne: "?records \<noteq> []" by simp_all
    have len: "int (length ?records) \<le> BATCH_SIZE"
      by (simp add: read_records_def BATCH_SIZE_def)
    have init: "LogContentDataNetworkMessage_init rid i
        (i + int (length ?records) - 1) (map rstrip ?records)
        = Inr (LogContentDataNetworkMessage rid i
            (i + int (length ?records) - 1) (map rstrip ?records))"
      using ne by (simp add: LogContentDataNetworkMessage_init_def)
    note IH = "1.IH" [OF le refl refl refl refl _ init]
    have "int (length ?records) \<noteq> 0" using ne by simp
    from IH [OF this] le ne len init show ?thesis
      by (subst (1 2) send_loop.simps) (simp add: Let_def)
  qed
qed

lemma content_exchange_when_file_is_long_enough:
  "LogStream_init file b = Inr stream \<Longrightarrow>
   handle_log_content_request True file rid b e =
     (LogContentStatusNetworkMessage rid FOUND_AND_BEGIN_SEND
        # fst (send_loop rid stream b e) @ [LogContentStatusNetworkMessage rid END_SEND], None)
   \<and> batches_from rid b (fst (send_loop rid stream b e))"
  using send_loop_batches [of rid stream b e]
  by (cases "send_loop rid stream b e") (simp add: handle_log_content_request_def)

lemma content_request_without_watch:
  "handle_log_content_request False file rid b e
     = ([LogContentStatusNetworkMessage rid LOG_NOT_FOUND], None)"
  by (simp add: handle_log_content_request_def)

text \<open>
  Claim C5, at the input where the code departs from it. The proxy watches the log, the
  file holds two lines and the request asks for records 5 to 9: \<open>FOUND\<close> is sent, the
  skip loop of \<open>LogStream.__init__\<close> raises \<open>StopIteration\<close>, and \<open>END\<close> is never sent.
\<close>

theorem content_request_beyond_file_sends_no_end:
  "handle_log_content_request True [''a\<newline>'', ''b\<newline>''] 7 5 9
     = ([LogContentStatusNetworkMessage 7 FOUND_AND_BEGIN_SEND], Some StopIteration)"
  by (simp add: handle_log_content_request_def LogStream_init_def eval_nat_numeral)

section \<open>The event loop: connection loss and protocol violations\<close>

lemma for_connections_quiet:
  "(\<forall>j. i \<le> j \<and> j < length cs \<longrightarrow> recv (cs ! j) = None) \<Longrightarrow>
   for_connections recv i cs = Continue cs"
proof (induction "length cs - i" arbitrary: i)
  case 0
  then show ?case by (simp add: for_connections.simps [of recv i cs])
next
  case (Suc d)
  then have lt: "i < length cs" by simp
  with Suc.prems have none: "recv (cs ! i) = None" by simp
  have "for_connections recv (Suc i) cs = Continue cs"
    using Suc.hyps(1) [of "Suc i"] Suc.hyps(2) Suc.prems by simp
  with lt none show ?case
    by (simp add: for_connections.simps [of recv i cs])
qed

lemma for_connections_skip:
  "i \<le> n \<Longrightarrow> n \<le> length cs \<Longrightarrow> (\<forall>j. i \<le> j \<and> j < n \<longrightarrow> recv (cs ! j) = None) \<Longrightarrow>
   for_connections recv i cs = for_connections recv n cs"
proof (induction "n - i" arbitrary: i)
  case 0
  then show ?case by simp
next
  case (Suc d)
  then have lt: "i < n" "i < length cs" by simp_all
  with Suc.prems have none: "recv (cs ! i) = None" by simp
  have "for_connections recv (Suc i) cs = for_connections recv n cs"
    using Suc.hyps(1) [of "Suc i"] Suc.hyps(2) Suc.prems lt by simp
  with lt none show ?case
    by (simp add: for_connections.simps [of recv i cs])
qed

text \<open>
  Claim C8, as the code has it. A \<open>ConnectionError\<close> raised while one connection is
  served removes that connection, and only it, from the registry, and the loop goes on.
  A protocol violation is a \<open>ValueError\<close>: the inner \<open>except ConnectionError\<close> does not
  catch it, the outer \<open>except Exception\<close> does, and \<open>os._exit(1)\<close> ends the agent, so no
  connection is served any more.
\<close>

theorem event_loop_errors:
  "(distinct (xs @ c # ys) \<and> recv c = Some ConnectionError
      \<and> (\<forall>x. x \<in> set xs \<or> x \<in> set ys \<longrightarrow> recv x = None)
     \<longrightarrow> for_connections recv 0 (xs @ c # ys) = Continue (xs @ ys))
   \<and> (recv c = Some (ValueError msg) \<and> (\<forall>x. x \<in> set xs \<longrightarrow> recv x = None)
     \<longrightarrow> for_connections recv 0 (xs @ c # ys) = Exit 1
         \<and> (recvs k = recv \<longrightarrow> handle_clients recvs k (Suc n) (xs @ c # ys) = Exit 1))"
proof -
  let ?cs = "xs @ c # ys"
  have skip: "for_connections recv 0 ?cs = for_connections recv (length xs) ?cs"
    if "\<forall>x. x \<in> set xs \<longrightarrow> recv x = None"
    by (rule for_connections_skip) (use that in \<open>auto simp: nth_append\<close>)
  have lost: "for_connections recv 0 ?cs = Continue (xs @ ys)"
    if d: "distinct ?cs" and c: "recv c = Some ConnectionError"
      and q: "\<forall>x. x \<in> set xs \<or> x \<in> set ys \<longrightarrow> recv x = None"
  proof -
    from d have rm: "remove1 c ?cs = xs @ ys"
      by (simp add: remove1_append)
    have "for_connections recv (Suc (length xs)) (xs @ ys) = Continue (xs @ ys)"
      by (rule for_connections_quiet) (use q in \<open>auto simp: nth_append\<close>)
    with c rm have "for_connections recv (length xs) ?cs = Continue (xs @ ys)"
      by (simp add: for_connections.simps [of recv "length xs" ?cs])
    with skip q show ?thesis by simp
  qed
  have fatal: "for_connections recv 0 ?cs = Exit 1"
    if c: "recv c = Some (ValueError msg)" and q: "\<forall>x. x \<in> set xs \<longrightarrow> recv x = None"
  proof -
    from c have "for_connections recv (length xs) ?cs = Exit 1"
      by (simp add: for_connections.simps [of recv "length xs" ?cs])
    with skip [OF q] show ?thesis by simp
  qed
  from lost fatal show ?thesis by auto
qed

theorem event_loop_errors_witness:
  "for_connections (\<lambda>c. if c = 1 then Some ConnectionError else None) 0 [0, 1, 2]
     = Continue [0, 2]
   \<and> handle_clients (\<lambda>k c. if c = 1 then Some (ValueError ''incorrect message type'') else None)
       0 (Suc 3) [0, 1, 2] = Exit 1"
  using event_loop_errors [of "[0]" 1 "[2]" "\<lambda>c. if c = 1 then Some ConnectionError else None"]
    event_loop_errors [of "[0]" 1 "[2]"
      "\<lambda>c. if c = 1 then Some (ValueError ''incorrect message type'') else None"
      "''incorrect message type''"
      "\<lambda>k c. if c = 1 then Some (ValueError ''incorrect message type'') else None" 0 3]
  by simp

text \<open>
  Claim C8 as stated fails: an out-of-order content batch makes \<open>add_records\<close> raise
  \<open>ValueError\<close>, and with that exception on the first of two connections the event loop
  does not continue with the registry \<open>[1]\<close>: the process exits with status 1.
\<close>

theorem protocol_violation_ends_agent:
  "conn_add_records
      (snd (request_content World_init 0 \<lparr>log_name = ''/t/a.log'', log_id = Some ''L1''\<rparr> 0 4))
      0 0 3 [''c'']
     = Inl (ValueError ''invalid begin_record'')
   \<and> handle_clients (\<lambda>k c. if c = 0 then Some (ValueError ''invalid begin_record'') else None)
       0 (Suc 0) [0, 1] = Exit 1"
  by (simp add: conn_add_records_def add_records_def request_content_def create_request_def
      World_init_def Store_init_def ProxyConnection_init_def ContentRequestHandler_init_def
      ContentRequest_init_def got_all_requested_records_def Let_def
      for_connections.simps [of _ 0])

section \<open>Lead election\<close>

lemma scan_children:
  "(\<forall>y\<in>set ys. \<not> found w y \<and> \<not> gone w y) \<Longrightarrow>
   (case find (found w) (rev xs) of
      None \<Rightarrow> try_resolve_lead_from (length xs) w (acr\<lparr>acr_requests := xs @ ys\<rparr>)
               = (w, acr\<lparr>acr_requests := filter (\<lambda>x. \<not> gone w x) xs @ ys\<rparr>)
    | Some x \<Rightarrow> (\<exists>zs. try_resolve_lead_from (length xs) w (acr\<lparr>acr_requests := xs @ ys\<rparr>)
                     = select_lead w (acr\<lparr>acr_requests := zs\<rparr>) (snd x)
                   \<and> set zs \<subseteq> set (xs @ ys)
                   \<and> (\<forall>y\<in>set (xs @ ys). y \<notin> set zs \<longrightarrow> gone w y)))"
proof (induction xs arbitrary: ys rule: rev_induct)
  case Nil
  then show ?case by simp
next
  case (snoc x xs)
  have nth: "(xs @ x # ys) ! length xs = x" by simp
  have del: "del_index (length xs) (xs @ x # ys) = xs @ ys" by (simp add: del_index_def)
  consider (f) "found w x" | (g) "\<not> found w x" "gone w x" | (o) "\<not> found w x" "\<not> gone w x"
    by blast
  then show ?case
  proof cases
    case f
    then have "try_resolve_lead_from (length (xs @ [x])) w (acr\<lparr>acr_requests := (xs @ [x]) @ ys\<rparr>)
        = select_lead w (acr\<lparr>acr_requests := (xs @ [x]) @ ys\<rparr>) (snd x)"
      by (simp add: nth found_def Let_def)
    with f show ?thesis by auto
  next
    case g
    then have step: "try_resolve_lead_from (length (xs @ [x])) w (acr\<lparr>acr_requests := (xs @ [x]) @ ys\<rparr>)
        = try_resolve_lead_from (length xs) w (acr\<lparr>acr_requests := xs @ ys\<rparr>)"
      by (simp add: nth del found_def gone_def Let_def)
    from snoc.IH [OF snoc.prems] g show ?thesis
      unfolding step by (auto split: option.splits)
  next
    case o
    then have step: "try_resolve_lead_from (length (xs @ [x])) w (acr\<lparr>acr_requests := (xs @ [x]) @ ys\<rparr>)
        = try_resolve_lead_from (length xs) w (acr\<lparr>acr_requests := xs @ (x # ys)\<rparr>)"
      by (simp add: nth found_def gone_def Let_def)
    have "\<forall>y\<in>set (x # ys). \<not> found w y \<and> \<not> gone w y"
      using o snoc.prems by simp
    from snoc.IH [OF this] o show ?thesis
      unfolding step by (auto split: option.splits)
  qed
qed

lemma conn_drop_outbox:
  "outbox (conns (conn_drop_content_request w c a) c') = outbox (conns w c')"
  by (simp add: conn_drop_content_request_def Let_def)

lemma conn_drop_terminal:
  assumes "child_ok w (c, a)" and "is_terminal (status (objs (store w) a))"
  shows "conn_drop_content_request w c a = w"
proof -
  from assms have "requests (content_requestor (conns w c)) (request_id (objs (store w) a)) = None"
    by (simp add: child_ok_def)
  then show ?thesis
    by (simp add: conn_drop_content_request_def drop_content_request_def set_status_def)
qed

lemma conn_drop_open:
  assumes "child_ok w (c, a)" and "\<not> is_terminal (status (objs (store w) a))"
  shows "conn_drop_content_request w c a =
    w\<lparr>store := (store w)\<lparr>objs := (objs (store w))(a := (objs (store w) a)\<lparr>status := DROPPED\<rparr>)\<rparr>,
      conns := (conns w)(c := (conns w c)\<lparr>content_requestor := (content_requestor (conns w c))
        \<lparr>requests := (requests (content_requestor (conns w c)))
            (request_id (objs (store w) a) := None)\<rparr>\<rparr>)\<rparr>"
proof -
  from assms have "requests (content_requestor (conns w c)) (request_id (objs (store w) a)) = Some a"
    by (simp add: child_ok_def)
  then show ?thesis
    by (simp add: conn_drop_content_request_def drop_content_request_def set_status_def
        cr_set_status_def)
qed

lemma drop_step:
  assumes wf: "children_wf w S" and x: "(c, a) \<in> S"
  shows "children_wf (conn_drop_content_request w c a) S"
    and "status (objs (store (conn_drop_content_request w c a)) a') =
      (if a' = a \<and> \<not> is_terminal (status (objs (store w) a)) then DROPPED
       else status (objs (store w) a'))"
proof -
  from wf x have ok: "child_ok w (c, a)" by (auto simp: children_wf_def)
  show "status (objs (store (conn_drop_content_request w c a)) a') =
      (if a' = a \<and> \<not> is_terminal (status (objs (store w) a)) then DROPPED
       else status (objs (store w) a'))"
  proof (cases "is_terminal (status (objs (store w) a))")
    case True
    with conn_drop_terminal [OF ok] show ?thesis by simp
  next
    case False
    with conn_drop_open [OF ok] show ?thesis by simp
  qed
  show "children_wf (conn_drop_content_request w c a) S"
  proof (cases "is_terminal (status (objs (store w) a))")
    case True
    with conn_drop_terminal [OF ok] wf show ?thesis by simp
  next
    case False
    note eq = conn_drop_open [OF ok False]
    from ok False have reg: "requests (content_requestor (conns w c))
        (request_id (objs (store w) a)) = Some a"
      by (simp add: child_ok_def)
    have "child_ok (conn_drop_content_request w c a) y" if y: "y \<in> S" for y
    proof -
      obtain c2 a2 where y2: "y = (c2, a2)" by (cases y)
      from wf y y2 have ok2: "child_ok w (c2, a2)" by (auto simp: children_wf_def)
      show ?thesis
      proof (cases "a2 = a")
        case True
        from wf have "inj_on snd S" by (simp add: children_wf_def)
        from inj_onD [OF this, of "(c2, a2)" "(c, a)"] True x y y2 have "c2 = c" by simp
        with True y2 show ?thesis
          unfolding eq by (simp add: child_ok_def is_terminal_def)
      next
        case False
        show ?thesis
        proof (cases "c2 = c \<and> request_id (objs (store w) a2) = request_id (objs (store w) a)")
          case True
          with ok2 reg False show ?thesis
            by (auto simp: child_ok_def split: if_splits)
        next
          case False
          with \<open>a2 \<noteq> a\<close> ok2 y2 show ?thesis
            unfolding eq by (auto simp: child_ok_def)
        qed
      qed
    qed
    with wf show ?thesis by (simp add: children_wf_def)
  qed
qed

lemma drop_others_outbox:
  "outbox (conns (drop_others w l zs) c') = outbox (conns w c')"
  by (induction zs arbitrary: w) (auto simp: conn_drop_outbox)

lemma drop_others_status:
  "children_wf w S \<Longrightarrow> set zs \<subseteq> S \<Longrightarrow>
   children_wf (drop_others w l zs) S
   \<and> (\<forall>a. status (objs (store (drop_others w l zs)) a) =
        (if a \<noteq> l \<and> a \<in> snd ` set zs \<and> \<not> is_terminal (status (objs (store w) a))
         then DROPPED else status (objs (store w) a)))"
proof (induction zs arbitrary: w)
  case Nil
  then show ?case by simp
next
  case (Cons z zs)
  obtain c a where z: "z = (c, a)" by (cases z)
  show ?case
  proof (cases "a = l")
    case True
    with Cons.IH [OF Cons.prems(1)] Cons.prems(2) z show ?thesis by auto
  next
    case False
    let ?w1 = "conn_drop_content_request w c a"
    from Cons.prems z have x: "(c, a) \<in> S" by simp
    note s = drop_step [OF Cons.prems(1) x]
    from Cons.IH [OF s(1)] Cons.prems(2)
    have wf': "children_wf (drop_others ?w1 l zs) S"
      and st: "\<And>a'. status (objs (store (drop_others ?w1 l zs)) a') =
        (if a' \<noteq> l \<and> a' \<in> snd ` set zs \<and> \<not> is_terminal (status (objs (store ?w1) a'))
         then DROPPED else status (objs (store ?w1) a'))"
      by simp_all
    have "status (objs (store (drop_others ?w1 l zs)) a') =
        (if a' \<noteq> l \<and> a' \<in> snd ` set (z # zs) \<and> \<not> is_terminal (status (objs (store w) a'))
         then DROPPED else status (objs (store w) a'))" for a'
      unfolding st s(2) using False z by (auto simp: is_terminal_def)
    with wf' False z show ?thesis by simp
  qed
qed

text \<open>
  In every world the agent reaches, the children created by the fan-outs agree with the
  handlers of their connections; so do the children of any aggregate request.
\<close>

lemma world_invD:
  assumes "world_inv w" and "requests (content_requestor (conns w c)) rid = Some a"
  shows "a < next_addr (store w)" and "request_id (objs (store w) a) = rid"
    and "\<not> is_terminal (status (objs (store w) a))"
    and "rid < next_request_id (content_requestor (conns w c))"
    and "\<And>c' rid'. requests (content_requestor (conns w c')) rid' = Some a \<Longrightarrow> c' = c"
  using assms unfolding world_inv_def by blast+

lemma world_invI:
  assumes "\<And>c rid a. requests (content_requestor (conns w c)) rid = Some a \<Longrightarrow>
        a < next_addr (store w) \<and> request_id (objs (store w) a) = rid
        \<and> \<not> is_terminal (status (objs (store w) a))
        \<and> rid < next_request_id (content_requestor (conns w c))"
    and "\<And>c c' rid rid' a. requests (content_requestor (conns w c)) rid = Some a \<Longrightarrow>
        requests (content_requestor (conns w c')) rid' = Some a \<Longrightarrow> c = c'"
  shows "world_inv w"
  using assms unfolding world_inv_def by blast

lemma children_invD:
  assumes "children_inv w S" and "(c, a) \<in> S"
  shows "child_ok w (c, a)" and "a < next_addr (store w)"
    and "request_id (objs (store w) a) < next_request_id (content_requestor (conns w c))"
    and "inj_on snd S"
  using assms unfolding children_inv_def children_wf_def by auto

lemma children_invI:
  assumes "inj_on snd S" and "\<And>c a. (c, a) \<in> S \<Longrightarrow> child_ok w (c, a)"
    and "\<And>c a. (c, a) \<in> S \<Longrightarrow> a < next_addr (store w)"
    and "\<And>c a. (c, a) \<in> S \<Longrightarrow>
        request_id (objs (store w) a) < next_request_id (content_requestor (conns w c))"
  shows "children_inv w S"
  using assms unfolding children_inv_def children_wf_def by auto

lemma conn_set_status_unregistered:
  "requests (content_requestor (conns w c)) rid = None \<Longrightarrow> conn_set_status w c rid s = w"
  by (simp add: conn_set_status_def set_status_def)

lemma conn_set_status_registered:
  "requests (content_requestor (conns w c)) rid = Some a \<Longrightarrow>
   conn_set_status w c rid s =
     w\<lparr>store := (store w)\<lparr>objs := (objs (store w))(a := (objs (store w) a)\<lparr>status := s\<rparr>)\<rparr>,
       conns := (conns w)(c := (conns w c)\<lparr>content_requestor :=
         (if is_terminal s
          then (content_requestor (conns w c))
                 \<lparr>requests := (requests (content_requestor (conns w c)))(rid := None)\<rparr>
          else content_requestor (conns w c))\<rparr>)\<rparr>"
  by (simp add: conn_set_status_def set_status_def cr_set_status_def is_terminal_def)

lemma conn_set_status_inv:
  assumes wi: "world_inv w" and ci: "children_inv w S"
  shows "world_inv (conn_set_status w c rid s) \<and> children_inv (conn_set_status w c rid s) S"
proof (cases "requests (content_requestor (conns w c)) rid")
  case None
  with wi ci show ?thesis by (simp add: conn_set_status_unregistered)
next
  case (Some a')
  note eq = conn_set_status_registered [OF Some, of s]
  let ?w = "conn_set_status w c rid s"
  note a' = world_invD [OF wi Some]
  have st: "status (objs (store ?w) a) = (if a = a' then s else status (objs (store w) a))"
    and id: "request_id (objs (store ?w) a) = request_id (objs (store w) a)"
    and na: "next_addr (store ?w) = next_addr (store w)"
    and nr: "next_request_id (content_requestor (conns ?w c2))
        = next_request_id (content_requestor (conns w c2))" for a c2
    unfolding eq by simp_all
  have req: "requests (content_requestor (conns ?w c2)) rid2 =
      (if c2 = c \<and> rid2 = rid \<and> is_terminal s then None
       else requests (content_requestor (conns w c2)) rid2)" for c2 rid2
    unfolding eq by simp
  have sub: "requests (content_requestor (conns w c2)) rid2 = Some a2"
    if "requests (content_requestor (conns ?w c2)) rid2 = Some a2" for c2 rid2 a2
    using that unfolding req by (simp split: if_splits)
  have wi': "world_inv ?w"
  proof (rule world_invI)
    fix c2 rid2 a2 assume r: "requests (content_requestor (conns ?w c2)) rid2 = Some a2"
    note old = world_invD [OF wi sub [OF r]]
    have "\<not> is_terminal (status (objs (store ?w) a2))"
    proof (cases "a2 = a'")
      case True
      from sub [OF r] True have "requests (content_requestor (conns w c2)) rid2 = Some a'"
        by simp
      from a'(5) [OF this] True old(2) a'(2) have "c2 = c" "rid2 = rid" by simp_all
      with r have "\<not> is_terminal s" unfolding req by (simp split: if_splits)
      with True show ?thesis by (simp add: st)
    next
      case False
      with old(3) show ?thesis by (simp add: st)
    qed
    with old show "a2 < next_addr (store ?w) \<and> request_id (objs (store ?w) a2) = rid2
        \<and> \<not> is_terminal (status (objs (store ?w) a2))
        \<and> rid2 < next_request_id (content_requestor (conns ?w c2))"
      by (simp add: id na nr)
  next
    fix c2 c3 rid2 rid3 a2
    assume "requests (content_requestor (conns ?w c2)) rid2 = Some a2"
      and "requests (content_requestor (conns ?w c3)) rid3 = Some a2"
    from world_invD(5) [OF wi sub [OF this(2)] sub [OF this(1)]] show "c2 = c3" .
  qed
  have ci': "children_inv ?w S"
  proof (rule children_invI)
    show "inj_on snd S" using ci by (simp add: children_inv_def children_wf_def)
  next
    fix c2 a2 assume x: "(c2, a2) \<in> S"
    note old = children_invD [OF ci x]
    show "a2 < next_addr (store ?w)" using old(2) by (simp add: na)
    show "request_id (objs (store ?w) a2) < next_request_id (content_requestor (conns ?w c2))"
      using old(3) by (simp add: id nr)
    show "child_ok ?w (c2, a2)"
    proof (cases "a2 = a'")
      case True
      from old(1) True a'(3) have "requests (content_requestor (conns w c2))
          (request_id (objs (store w) a')) = Some a'"
        by (simp add: child_ok_def)
      from a'(5) [OF this] have c2: "c2 = c" .
      with True a'(2) Some show ?thesis
        by (simp add: child_ok_def st id req)
    next
      case False
      have "requests (content_requestor (conns ?w c2)) (request_id (objs (store w) a2))
          = requests (content_requestor (conns w c2)) (request_id (objs (store w) a2))"
      proof (cases "c2 = c \<and> request_id (objs (store w) a2) = rid")
        case True
        with old(1) Some False show ?thesis
          by (auto simp: child_ok_def split: if_splits)
      next
        case False
        then show ?thesis by (auto simp: req)
      qed
      with old(1) False show ?thesis
        by (simp add: child_ok_def st id)
    qed
  qed
  from wi' ci' show ?thesis ..
qed

lemma conn_drop_is_set_status:
  "conn_drop_content_request w c a = conn_set_status w c (request_id (objs (store w) a)) DROPPED"
  by (simp add: conn_drop_content_request_def conn_set_status_def drop_content_request_def)

lemma conn_add_records_inv:
  assumes wi: "world_inv w" and ci: "children_inv w S"
    and ok: "conn_add_records w c rid b records = Inr w'"
  shows "world_inv w' \<and> children_inv w' S"
proof (cases "requests (content_requestor (conns w c)) rid")
  case None
  with ok have "w' = w" by (auto simp: conn_add_records_def add_records_def)
  with wi ci show ?thesis by simp
next
  case (Some a')
  with ok have w': "w' = w\<lparr>store := (store w)\<lparr>objs := (objs (store w))
      (a' := foldl cr_add_record (objs (store w) a') records)\<rparr>\<rparr>"
    by (auto simp: conn_add_records_def add_records_def split: if_splits)
  have same: "status (objs (store w') a) = status (objs (store w) a)"
    "request_id (objs (store w') a) = request_id (objs (store w) a)"
    "next_addr (store w') = next_addr (store w)" "conns w' = conns w" for a
    unfolding w' by (simp_all add: foldl_cr_add_record)
  have "world_inv w'"
    using wi unfolding world_inv_def same .
  moreover have "children_inv w' S"
    using ci unfolding children_inv_def children_wf_def child_ok_def same .
  ultimately show ?thesis ..
qed

lemma request_content_inv:
  assumes wi: "world_inv w" and ci: "children_inv w S"
  shows "world_inv (snd (request_content w c l b e))
    \<and> children_inv (snd (request_content w c l b e)) (insert (c, fst (request_content w c l b e)) S)"
proof -
  let ?a = "next_addr (store w)"
  let ?rid = "next_request_id (content_requestor (conns w c))"
  let ?w = "snd (request_content w c l b e)"
  have fst: "fst (request_content w c l b e) = ?a"
    by (simp add: request_content_def create_request_def Let_def)
  have ob: "objs (store ?w) a = (if a = ?a then ContentRequest_init ?rid l b e
      else objs (store w) a)" for a
    by (simp add: request_content_def create_request_def Let_def)
  have na: "next_addr (store ?w) = Suc ?a"
    by (simp add: request_content_def create_request_def Let_def)
  have req: "requests (content_requestor (conns ?w c2)) rid2 =
      (if c2 = c \<and> rid2 = ?rid then Some ?a
       else requests (content_requestor (conns w c2)) rid2)" for c2 rid2
    by (simp add: request_content_def create_request_def Let_def)
  have nr: "next_request_id (content_requestor (conns ?w c2)) =
      (if c2 = c then ?rid + 1 else next_request_id (content_requestor (conns w c2)))" for c2
    by (simp add: request_content_def create_request_def Let_def)
  have new: "request_id (ContentRequest_init ?rid l b e) = ?rid"
    "status (ContentRequest_init ?rid l b e) = PENDING"
    by (simp_all add: ContentRequest_init_def)
  have old_entry: "a2 \<noteq> ?a" if "requests (content_requestor (conns w c2)) rid2 = Some a2"
    for c2 rid2 a2
    using world_invD(1) [OF wi that] by simp
  have wi': "world_inv ?w"
  proof (rule world_invI)
    fix c2 rid2 a2 assume r: "requests (content_requestor (conns ?w c2)) rid2 = Some a2"
    show "a2 < next_addr (store ?w) \<and> request_id (objs (store ?w) a2) = rid2
        \<and> \<not> is_terminal (status (objs (store ?w) a2))
        \<and> rid2 < next_request_id (content_requestor (conns ?w c2))"
    proof (cases "c2 = c \<and> rid2 = ?rid")
      case True
      with r have "a2 = ?a" by (simp add: req)
      with True show ?thesis by (simp add: ob na nr new is_terminal_def)
    next
      case False
      with r have r0: "requests (content_requestor (conns w c2)) rid2 = Some a2"
        by (simp add: req)
      from world_invD [OF wi r0] old_entry [OF r0] show ?thesis
        by (auto simp: ob na nr)
    qed
  next
    fix c2 c3 rid2 rid3 a2
    assume r2: "requests (content_requestor (conns ?w c2)) rid2 = Some a2"
      and r3: "requests (content_requestor (conns ?w c3)) rid3 = Some a2"
    show "c2 = c3"
    proof (cases "a2 = ?a")
      case True
      with r2 r3 old_entry show ?thesis
        by (auto simp: req split: if_splits)
    next
      case False
      with r2 r3 have "requests (content_requestor (conns w c2)) rid2 = Some a2"
        "requests (content_requestor (conns w c3)) rid3 = Some a2"
        by (auto simp: req split: if_splits)
      from world_invD(5) [OF wi this(2) this(1)] show ?thesis .
    qed
  qed
  have ci': "children_inv ?w (insert (c, ?a) S)"
  proof (rule children_invI)
    from ci have inj: "inj_on snd S" by (simp add: children_inv_def children_wf_def)
    have "?a \<notin> snd ` S"
      using children_invD(2) [OF ci] by force
    with inj show "inj_on snd (insert (c, ?a) S)" by auto
  next
    fix c2 a2 assume x: "(c2, a2) \<in> insert (c, ?a) S"
    show "child_ok ?w (c2, a2)"
    proof (cases "a2 = ?a")
      case True
      with x children_invD(2) [OF ci, of c2 a2] have "c2 = c" by auto
      with True show ?thesis by (simp add: child_ok_def ob req new is_terminal_def)
    next
      case False
      with x have xS: "(c2, a2) \<in> S" by simp
      note old = children_invD [OF ci xS]
      from old(3) have "\<not> (c2 = c \<and> request_id (objs (store w) a2) = ?rid)" by auto
      with old(1) False show ?thesis
        by (auto simp: child_ok_def ob req)
    qed
    show "a2 < next_addr (store ?w)"
      using x children_invD(2) [OF ci, of c2 a2] by (auto simp: na)
    show "request_id (objs (store ?w) a2) < next_request_id (content_requestor (conns ?w c2))"
    proof (cases "a2 = ?a")
      case True
      with x children_invD(2) [OF ci, of c2 a2] have "c2 = c" by auto
      with True show ?thesis by (simp add: ob nr new)
    next
      case False
      with x have xS: "(c2, a2) \<in> S" by simp
      from children_invD(3) [OF ci xS] False show ?thesis by (auto simp: ob nr)
    qed
  qed
  from wi' ci' show ?thesis by (simp add: fst)
qed

lemma request_all_inv:
  "world_inv w \<Longrightarrow> children_inv w S \<Longrightarrow>
   world_inv (snd (request_all w cons l b e))
   \<and> children_inv (snd (request_all w cons l b e)) (S \<union> set (fst (request_all w cons l b e)))"
proof (induction cons arbitrary: w S)
  case Nil
  then show ?case by simp
next
  case (Cons c cons)
  let ?r = "request_content w c l b e"
  from request_content_inv [OF Cons.prems, of c l b e]
  have 1: "world_inv (snd ?r)" "children_inv (snd ?r) (insert (c, fst ?r) S)" by simp_all
  from Cons.IH [OF 1] show ?case
    by (simp add: Let_def Un_commute insert_commute)
qed

lemma world_init_inv: "world_inv World_init \<and> children_inv World_init {}"
  by (simp add: world_inv_def children_inv_def children_wf_def World_init_def
      ProxyConnection_init_def ContentRequestHandler_init_def)

lemma world_step_inv:
  assumes "world_inv w" and "children_inv w S" and "world_step (w, S) ev = Inr (w', S')"
  shows "world_inv w' \<and> children_inv w' S'"
proof (cases ev)
  case (FanOut cons l b e)
  with assms(3) request_all_inv [OF assms(1,2), of cons l b e] show ?thesis by auto
next
  case (OnStatus c rid s)
  with assms(3) conn_set_status_inv [OF assms(1,2), of c rid s] show ?thesis by auto
next
  case (OnRecords c rid b records)
  with assms(3) obtain w1 where "conn_add_records w c rid b records = Inr w1" "w' = w1" "S' = S"
    by (auto split: sum.splits)
  with conn_add_records_inv [OF assms(1,2)] show ?thesis by blast
next
  case (DropChild c a)
  with assms conn_set_status_inv [OF assms(1,2), of c "request_id (objs (store w) a)" DROPPED]
  show ?thesis by (auto simp: conn_drop_is_set_status split: if_splits)
qed

lemma world_run_inv:
  "world_inv (fst ws) \<Longrightarrow> children_inv (fst ws) (snd ws) \<Longrightarrow> world_run ws evs = Inr ws' \<Longrightarrow>
   world_inv (fst ws') \<and> children_inv (fst ws') (snd ws')"
proof (induction evs arbitrary: ws)
  case Nil
  then show ?case by simp
next
  case (Cons ev evs)
  from Cons.prems(3) obtain ws1 where 1: "world_step ws ev = Inr ws1"
    and 2: "world_run ws1 evs = Inr ws'"
    by (auto split: sum.splits)
  from world_step_inv [of "fst ws" "snd ws" ev "fst ws1" "snd ws1"] Cons.prems(1,2) 1
  have "world_inv (fst ws1) \<and> children_inv (fst ws1) (snd ws1)" by simp
  with Cons.IH [OF _ _ 2] show ?case by simp
qed

lemma children_wf_subset: "children_wf w S \<Longrightarrow> T \<subseteq> S \<Longrightarrow> children_wf w T"
  by (auto simp: children_wf_def intro: inj_on_subset)

lemma reachable_children_wf:
  assumes "world_run (World_init, {}) evs = Inr (w, S)" and "set (acr_requests acr) \<subseteq> S"
  shows "children_wf w (set (acr_requests acr))"
proof -
  from world_run_inv [OF _ _ assms(1)] world_init_inv have "children_inv w S" by simp
  then have "children_wf w S" by (simp add: children_inv_def)
  from children_wf_subset [OF this assms(2)] show ?thesis .
qed

lemma fan_out_children:
  "world_step (w, S) (FanOut cons l b e) = Inr (w', S') \<Longrightarrow>
   w' = snd (request_log_content w cons l b e)
   \<and> set (acr_requests (fst (request_log_content w cons l b e))) \<subseteq> S'"
  by (auto simp: request_log_content_def AgentContentRequest_init_def)

text \<open>
  Claim C3, as the code has it. Once a lead is set, \<open>get_lead\<close> returns it and changes
  nothing, so an aggregate elects at most one lead. With no lead yet, \<open>get_lead\<close> elects
  the first child found with status \<open>RECEIVING\<close> or \<open>CLOSED\<close>, scanning newest to
  oldest, and sends no message to any proxy. If no child has such a status, the world is
  unchanged and the children in \<open>NOT_FOUND\<close> or \<open>DROPPED\<close> are pruned, leaving the
  \<open>PENDING\<close> ones in order. If a lead is elected, the list of children is emptied; where
  the children agree with their connections' handlers, the lead keeps its status and
  every other child that was \<open>PENDING\<close> or \<open>RECEIVING\<close> is now \<open>DROPPED\<close>, while a child
  that was already \<open>CLOSED\<close>, \<open>NOT_FOUND\<close> or \<open>DROPPED\<close> keeps its status. The aggregate
  is dead iff no lead was elected and no children remain.
\<close>

theorem lead_election:
  "(lead acr \<noteq> None \<longrightarrow> get_lead w acr = (lead acr, w, acr))
   \<and> (lead acr = None \<longrightarrow>
        fst (get_lead w acr) = map_option snd (find (found w) (rev (acr_requests acr)))
      \<and> lead (snd (snd (get_lead w acr))) = fst (get_lead w acr)
      \<and> (\<forall>c. outbox (conns (fst (snd (get_lead w acr))) c) = outbox (conns w c))
      \<and> (fst (get_lead w acr) = None \<longrightarrow>
           fst (snd (get_lead w acr)) = w
           \<and> acr_requests (snd (snd (get_lead w acr)))
               = filter (\<lambda>x. \<not> gone w x) (acr_requests acr)
           \<and> (\<forall>x\<in>set (acr_requests (snd (snd (get_lead w acr)))).
                 status (objs (store w) (snd x)) = PENDING))
      \<and> (fst (get_lead w acr) \<noteq> None \<longrightarrow> acr_requests (snd (snd (get_lead w acr))) = [])
      \<and> (children_wf w (set (acr_requests acr)) \<longrightarrow>
           (\<forall>l. fst (get_lead w acr) = Some l \<longrightarrow>
              status (objs (store (fst (snd (get_lead w acr)))) l) = status (objs (store w) l)
              \<and> (\<forall>x\<in>set (acr_requests acr). snd x \<noteq> l \<longrightarrow>
                   status (objs (store (fst (snd (get_lead w acr)))) (snd x)) =
                     (if is_terminal (status (objs (store w) (snd x)))
                      then status (objs (store w) (snd x)) else DROPPED)))))
   \<and> (is_dead acr \<longleftrightarrow> lead acr = None \<and> acr_requests acr = [])"
proof -
  let ?xs = "acr_requests acr"
  have set_lead: "lead acr \<noteq> None \<longrightarrow> get_lead w acr = (lead acr, w, acr)"
    by (simp add: get_lead_def)
  have dead: "is_dead acr \<longleftrightarrow> lead acr = None \<and> acr_requests acr = []"
    by (simp add: is_dead_def)
  have unset: ?thesis if none: "lead acr = None"
  proof -
    have g: "get_lead w acr = (lead (snd (try_resolve_lead w acr)), try_resolve_lead w acr)"
      using none by (simp add: get_lead_def)
    note scan = scan_children [of "[]" w ?xs acr, simplified]
    show ?thesis
    proof (cases "find (found w) (rev ?xs)")
      case None
      with scan have r: "try_resolve_lead w acr = (w, acr\<lparr>acr_requests := filter (\<lambda>x. \<not> gone w x) ?xs\<rparr>)"
        by (simp add: try_resolve_lead_def)
      from None have nf: "\<forall>x\<in>set ?xs. \<not> found w x"
        by (auto simp: find_None_iff)
      have pend: "status (objs (store w) (snd x)) = PENDING"
        if "x \<in> set ?xs" "\<not> gone w x" for x
        using that nf by (cases "status (objs (store w) (snd x))") (auto simp: found_def gone_def)
      from None r none pend set_lead dead show ?thesis
        unfolding g by simp
    next
      case (Some x)
      with scan obtain zs where
        r: "try_resolve_lead w acr = select_lead w (acr\<lparr>acr_requests := zs\<rparr>) (snd x)"
        and sub: "set zs \<subseteq> set ?xs"
        and rest: "\<forall>y\<in>set ?xs. y \<notin> set zs \<longrightarrow> gone w y"
        by (auto simp: try_resolve_lead_def)
      let ?l = "snd x"
      let ?w' = "drop_others w ?l zs"
      have r': "try_resolve_lead w acr = (?w', acr\<lparr>lead := Some ?l, acr_requests := []\<rparr>)"
        using r by (simp add: select_lead_def)
      have st: "status (objs (store ?w') ?l) = status (objs (store w) ?l)
          \<and> (\<forall>y\<in>set ?xs. snd y \<noteq> ?l \<longrightarrow>
                status (objs (store ?w') (snd y)) =
                  (if is_terminal (status (objs (store w) (snd y)))
                   then status (objs (store w) (snd y)) else DROPPED))"
        if wf: "children_wf w (set ?xs)"
      proof -
        from drop_others_status [OF wf sub, of ?l]
        have d: "\<And>a. status (objs (store ?w') a) =
            (if a \<noteq> ?l \<and> a \<in> snd ` set zs \<and> \<not> is_terminal (status (objs (store w) a))
             then DROPPED else status (objs (store w) a))"
          by simp
        have "status (objs (store ?w') (snd y)) =
            (if is_terminal (status (objs (store w) (snd y)))
             then status (objs (store w) (snd y)) else DROPPED)"
          if y: "y \<in> set ?xs" "snd y \<noteq> ?l" for y
        proof (cases "y \<in> set zs")
          case True
          then have "snd y \<in> snd ` set zs" by simp
          with y show ?thesis by (simp add: d)
        next
          case False
          with rest y have "gone w y" by simp
          then have "is_terminal (status (objs (store w) (snd y)))"
            by (auto simp: gone_def is_terminal_def)
          then show ?thesis by (simp add: d)
        qed
        then show ?thesis by (simp add: d)
      qed
      from Some r' none st set_lead dead show ?thesis
        unfolding g by (simp add: drop_others_outbox)
    qed
  qed
  from set_lead dead unset show ?thesis by blast
qed


lemmas world_defs = request_log_content_def request_content_def create_request_def
  AgentContentRequest_init_def World_init_def Store_init_def ProxyConnection_init_def
  ContentRequestHandler_init_def ContentRequest_init_def conn_set_status_def
  set_status_def cr_set_status_def Let_def

theorem lead_election_witness:
  "(let r = request_log_content World_init [0, 1, 2]
              \<lparr>log_name = ''/t/a.log'', log_id = Some ''L1''\<rparr> 0 4;
        acr = fst r;
        w = conn_set_status (snd r) 1 0 RECEIVING;
        g = get_lead w acr
    in acr_requests acr = [(0, 0), (1, 1), (2, 2)] \<and> lead acr = None
       \<and> children_wf w (set (acr_requests acr))
       \<and> status (objs (store w) 0) = PENDING \<and> status (objs (store w) 1) = RECEIVING
       \<and> status (objs (store w) 2) = PENDING
       \<and> fst g = Some 1 \<and> lead (snd (snd g)) = Some 1 \<and> acr_requests (snd (snd g)) = []
       \<and> status (objs (store (fst (snd g))) 0) = DROPPED
       \<and> status (objs (store (fst (snd g))) 1) = RECEIVING
       \<and> status (objs (store (fst (snd g))) 2) = DROPPED
       \<and> get_lead (fst (snd g)) (snd (snd g)) = g)"
proof -
  define r where "r = request_log_content World_init [0, 1, 2]
              \<lparr>log_name = ''/t/a.log'', log_id = Some ''L1''\<rparr> 0 4"
  define acr where "acr = fst r"
  define w where "w = conn_set_status (snd r) 1 0 RECEIVING"
  have acr: "acr = \<lparr>acr_requests = [(0, 0), (1, 1), (2, 2)], lead = None\<rparr>"
    by (simp add: acr_def r_def world_defs)
  have st: "status (objs (store w) 0) = PENDING" "status (objs (store w) 1) = RECEIVING"
    "status (objs (store w) 2) = PENDING"
    "request_id (objs (store w) 0) = 0" "request_id (objs (store w) 1) = 0"
    "request_id (objs (store w) 2) = 0"
    by (simp_all add: w_def r_def world_defs)
  have reg: "requests (content_requestor (conns w 0)) 0 = Some 0"
    "requests (content_requestor (conns w 1)) 0 = Some 1"
    "requests (content_requestor (conns w 2)) 0 = Some 2"
    by (simp_all add: w_def r_def world_defs)
  have wf: "children_wf w (set (acr_requests acr))"
    using st reg by (simp add: acr children_wf_def child_ok_def is_terminal_def)
  have f: "find (found w) (rev (acr_requests acr)) = Some (1, 1)"
    using st by (simp add: acr found_def)
  note e = lead_election [of acr w]
  from e acr f have g: "fst (get_lead w acr) = Some 1" "lead (snd (snd (get_lead w acr))) = Some 1"
    "acr_requests (snd (snd (get_lead w acr))) = []"
    by simp_all
  from e wf g(1) acr st have s: "status (objs (store (fst (snd (get_lead w acr)))) 1) = RECEIVING"
    "status (objs (store (fst (snd (get_lead w acr)))) 0) = DROPPED"
    "status (objs (store (fst (snd (get_lead w acr)))) 2) = DROPPED"
    by (simp_all add: is_terminal_def)
  from lead_election [of "snd (snd (get_lead w acr))" "fst (snd (get_lead w acr))"] g(1,2)
  have again: "get_lead (fst (snd (get_lead w acr))) (snd (snd (get_lead w acr))) = get_lead w acr"
    by (simp add: prod_eq_iff)
  from acr wf st g s again show ?thesis
    unfolding Let_def r_def [symmetric] acr_def [symmetric] w_def [symmetric] by simp
qed

text \<open>
  Claim C3 as stated fails. Two proxies have both answered \<open>FOUND\<close> and \<open>END\<close> before
  \<open>get_lead\<close> runs: the newer child is elected, the other child stays \<open>CLOSED\<close> (its id
  has left its handler's dictionary, so \<open>drop_content_request\<close> returns at once), and
  the only message ever sent to its proxy is the original \<open>GetLogContent\<close>: there is no
  cancellation message.
\<close>

theorem other_child_stays_closed_and_no_cancel_message:
  "(let l = \<lparr>log_name = ''/t/a.log'', log_id = Some ''L1''\<rparr>;
        r = request_log_content World_init [0, 1] l 0 4;
        w = conn_set_status (conn_set_status (snd r) 0 0 CLOSED) 1 0 CLOSED;
        g = get_lead w (fst r)
    in status (objs (store w) 0) = CLOSED \<and> status (objs (store w) 1) = CLOSED
       \<and> outbox (conns w 0) = [GetLogContentNetworkMessage l 0 0 4]
       \<and> fst g = Some 1
       \<and> status (objs (store (fst (snd g))) 0) = CLOSED
       \<and> status (objs (store (fst (snd g))) 0) \<noteq> DROPPED
       \<and> outbox (conns (fst (snd g)) 0) = [GetLogContentNetworkMessage l 0 0 4])"
  by (simp add: world_defs get_lead_def try_resolve_lead_def select_lead_def
      conn_drop_content_request_def drop_content_request_def)

section \<open>Validator: the end of the record stream\<close>

text \<open>\<open>drain\<close> is the loop over \<open>pop_record\<close>: one unfolding, in terms of the lead
  request.\<close>

lemma drain_pop_record:
  "drain H (content r) pj =
     (case pop_record r of
        (None, r') \<Rightarrow> Inr ([], pj)
      | (Some new_record, r') \<Rightarrow>
          if new_record = [] then Inr (content r', pj)
          else (case handle_new_record H pj new_record of
                  Inl x \<Rightarrow> Inl x
                | Inr pj' \<Rightarrow> drain H (content r') pj'))"
  by (cases "content r") (auto simp: pop_record_def split: sum.splits)

text \<open>When the aggregate request is dead and snapshots remain, \<open>work_in_progress\<close>
  finishes the job and posts \<open>isCorrect = false\<close>.\<close>

lemma dead_aggregate_posts_false:
  "is_dead (job j) \<Longrightarrow> \<not> validation_finished j \<Longrightarrow> remaining_snapshots j \<noteq> [] \<Longrightarrow>
   work_in_progress (w, p, j) = (False, w, p @ [(job_log j, False)], j\<lparr>validation_finished := True\<rparr>)"
  by (simp add: work_in_progress_def finish_validation_def)

text \<open>
  Claim C4, at the input where the code departs from it. One proxy answers a request for
  records 0 to 4 with \<open>FOUND\<close>, three records and \<open>END\<close>, so the lead request is
  \<open>CLOSED\<close>; the job has one snapshot, with \<open>lastLine = 4\<close>. The worker's iteration
  consumes the three records, \<open>work_in_progress\<close> answers \<open>False\<close> because the lead is
  \<open>CLOSED\<close>, and the job leaves the queue unfinished: nothing is posted.
\<close>

theorem closed_lead_with_snapshots_left_posts_nothing:
  "(let l = \<lparr>log_name = ''/t/a.log'', log_id = Some ''L1''\<rparr>;
        snapshot = \<lparr>firstLine = 0, lastLine = 4, logId = Some ''L1'', fingerprint = ''F''\<rparr>;
        r = request_log_content World_init [0] l 0 4;
        w2 = conn_set_status (snd r) 0 0 RECEIVING;
        w3 = projr (conn_add_records w2 0 0 0 [''x'', ''y'', ''z'']);
        w4 = conn_set_status w3 0 0 CLOSED;
        pj = LogValidatorJob_init H [] [snapshot] (fst r) l
    in status (objs (store w4) 0) = CLOSED
       \<and> fst pj = [] \<and> remaining_snapshots (snd pj) = [snapshot]
       \<and> (case worker_step H (w4, pj) of
             Inl x \<Rightarrow> False
           | Inr (keep, w, p, j) \<Rightarrow>
               keep = False \<and> p = [] \<and> validation_finished j = False
               \<and> remaining_snapshots j = [snapshot] \<and> records_counter j = 3
               \<and> content (objs (store w) 0) = []))"
  by (simp add: Let_def request_log_content_def request_content_def create_request_def
      AgentContentRequest_init_def World_init_def Store_init_def ProxyConnection_init_def
      ContentRequestHandler_init_def ContentRequest_init_def conn_set_status_def
      set_status_def cr_set_status_def conn_add_records_def add_records_def
      got_all_requested_records_def cr_add_record_def LogValidatorJob_init_def
      worker_step_def do_work_def work_in_progress_def get_lead_def try_resolve_lead_def
      select_lead_def handle_new_record_def is_dead_def)

section \<open>Framing round trip\<close>

















end
